theory Spec2Isabelle
  imports Complex_Main "HOL-Library.Sublist" "HOL-Library.Multiset" "HOL-Library.Product_Lexorder"
begin

section \<open>Data model\<close>

text \<open>
  A colour is a Python tuple \<open>(r, g, b)\<close> of (unbounded) Python integers. The pipeline
  only ever produces channels in \<open>[0, 255]\<close>; that range is the predicate \<open>valid_color\<close>
  and is a hypothesis wherever a property needs it.

  Python floats are IEEE 754 double-precision numbers. The floating-point arithmetic of
  \<open>rgb_to_hsl\<close>, on which the decisions of the colour filter depend, is modelled
  operation by operation with its rounding. The square root of \<open>color_distance\<close> is the
  exact one: on colours the sum of squares is an integer below \<open>2\<^sup>1\<^sup>8\<close>, and comparing
  two distances, or a distance with an integer threshold, comes out the same.
\<close>

type_synonym color = "int \<times> int \<times> int"

definition valid_color :: "color \<Rightarrow> bool" where
  "valid_color c =
     (case c of (r, g, b) \<Rightarrow> 0 \<le> r \<and> r \<le> 255 \<and> 0 \<le> g \<and> g \<le> 255 \<and> 0 \<le> b \<and> b \<le> 255)"

datatype py_error = ValueError | IndexError | NameError | ZeroDivisionError

section \<open>Colour conversion: \<open>rgb_to_hex\<close>, \<open>hex_to_rgb\<close>, \<open>rgb_to_hsl\<close>, \<open>color_distance\<close>\<close>

definition hex_digit :: "nat \<Rightarrow> char" where
  "hex_digit n = ''0123456789abcdef'' ! (n mod 16)"

fun hex_of_nat :: "nat \<Rightarrow> string" where
  "hex_of_nat n =
     (if n < 16 then [hex_digit n] else hex_of_nat (n div 16) @ [hex_digit (n mod 16)])"

declare hex_of_nat.simps [simp del]

definition zero_pad :: "nat \<Rightarrow> string \<Rightarrow> string" where
  "zero_pad w s = replicate (w - length s) (CHR ''0'') @ s"

text \<open>
  The format specification \<open>:02x\<close>: lowercase hexadecimal, zero-padded to a minimum width
  of two characters, the sign of a negative number counted in the width.
\<close>

definition format_02x :: "int \<Rightarrow> string" where
  "format_02x n =
     (if n < 0 then CHR ''-'' # zero_pad 1 (hex_of_nat (nat (- n)))
      else zero_pad 2 (hex_of_nat (nat n)))"

definition rgb_to_hex :: "int \<Rightarrow> int \<Rightarrow> int \<Rightarrow> string" where
  "rgb_to_hex r g b = CHR ''#'' # format_02x r @ format_02x g @ format_02x b"

text \<open>
  The builtin \<open>int(s, 16)\<close>: surrounding whitespace (the ASCII whitespace characters and,
  of the characters above 127, the no-break space and the next-line character; the
  separators 28 to 31 are not stripped) is removed, then come an optional
  sign, an optional \<open>0x\<close> prefix (with one underscore allowed after it) and hexadecimal
  digits of either case, single underscores allowed between digits. Anything else raises
  \<open>ValueError\<close>.
\<close>

definition py_isspace :: "char \<Rightarrow> bool" where
  "py_isspace c =
     (let n = (of_char c :: nat)
      in (9 \<le> n \<and> n \<le> 13) \<or> n = 32 \<or> n = 133 \<or> n = 160)"

definition py_strip :: "string \<Rightarrow> string" where
  "py_strip s = rev (dropWhile py_isspace (rev (dropWhile py_isspace s)))"

definition hex_digit_value :: "char \<Rightarrow> nat option" where
  "hex_digit_value c =
     (let n = (of_char c :: nat)
      in if 48 \<le> n \<and> n \<le> 57 then Some (n - 48)
         else if 97 \<le> n \<and> n \<le> 102 then Some (n - 87)
         else if 65 \<le> n \<and> n \<le> 70 then Some (n - 55)
         else None)"

fun scan_digits :: "nat \<Rightarrow> char option \<Rightarrow> string \<Rightarrow> nat option" where
  "scan_digits acc prev [] =
     (if prev = None \<or> prev = Some (CHR ''_'') then None else Some acc)"
| "scan_digits acc prev (c # cs) =
     (if c = CHR ''_''
      then (if prev = None \<or> prev = Some (CHR ''_'') then None
            else scan_digits acc (Some c) cs)
      else (case hex_digit_value c of
              None \<Rightarrow> None
            | Some v \<Rightarrow> scan_digits (acc * 16 + v) (Some c) cs))"

fun strip_sign :: "string \<Rightarrow> int \<times> string" where
  "strip_sign [] = (1, [])"
| "strip_sign (c # cs) =
     (if c = CHR ''-'' then (- 1, cs) else if c = CHR ''+'' then (1, cs) else (1, c # cs))"

fun strip_prefix16 :: "string \<Rightarrow> string" where
  "strip_prefix16 (z # x # rest) =
     (if z = CHR ''0'' \<and> (x = CHR ''x'' \<or> x = CHR ''X'')
      then (case rest of [] \<Rightarrow> [] | u # rest' \<Rightarrow> if u = CHR ''_'' then rest' else u # rest')
      else z # x # rest)"
| "strip_prefix16 s = s"

definition py_int16 :: "string \<Rightarrow> py_error + int" where
  "py_int16 s =
     (case strip_sign (py_strip s) of
        (sign, body) \<Rightarrow>
          (case scan_digits 0 None (strip_prefix16 body) of
             None \<Rightarrow> Inl ValueError
           | Some n \<Rightarrow> Inr (sign * int n)))"

text \<open>\<open>hex_color[i:i+2]\<close>: slices never raise, they are cut at the end of the string.\<close>

definition slice2 :: "string \<Rightarrow> nat \<Rightarrow> string" where
  "slice2 s i = take 2 (drop i s)"

definition hex_to_rgb :: "string \<Rightarrow> py_error + color" where
  "hex_to_rgb hex_color =
     (let h = dropWhile (\<lambda>c. c = CHR ''#'') hex_color
      in case py_int16 (slice2 h 0) of
           Inl e \<Rightarrow> Inl e
         | Inr r \<Rightarrow>
             (case py_int16 (slice2 h 2) of
                Inl e \<Rightarrow> Inl e
              | Inr g \<Rightarrow>
                  (case py_int16 (slice2 h 4) of
                     Inl e \<Rightarrow> Inl e
                   | Inr b \<Rightarrow> Inr (r, g, b))))"

text \<open>
  Double-precision arithmetic. A double is a real number \<open>m \<cdot> 2\<^sup>e\<^sup>-\<^sup>5\<^sup>2\<close> with an integer
  \<open>m\<close> of at most 53 bits; \<open>round_double\<close> rounds a real number to the nearest double of
  its binade, ties to the even significand, as every arithmetic operation on floats does.
  The exponent range is not modelled: on channels in \<open>[0, 255]\<close> no intermediate value of
  \<open>rgb_to_hsl\<close> overflows or is subnormal.
\<close>

definition rne :: "real \<Rightarrow> int" where
  "rne x =
     (let f = \<lfloor>x\<rfloor>; d = x - of_int f
      in if d < 1 / 2 then f else if 1 / 2 < d then f + 1 else if even f then f else f + 1)"

definition round_double :: "real \<Rightarrow> real" where
  "round_double x =
     (if x = 0 then 0
      else (let e = \<lfloor>log 2 \<bar>x\<bar>\<rfloor>
            in of_int (rne (x * 2 powi (52 - e))) * 2 powi (e - 52)))"

definition float_of_int :: "int \<Rightarrow> real" where
  "float_of_int n = round_double (of_int n)"

definition fadd :: "real \<Rightarrow> real \<Rightarrow> real" where
  "fadd x y = round_double (x + y)"

definition fsub :: "real \<Rightarrow> real \<Rightarrow> real" where
  "fsub x y = round_double (x - y)"

definition fmul :: "real \<Rightarrow> real \<Rightarrow> real" where
  "fmul x y = round_double (x * y)"

definition fdiv :: "real \<Rightarrow> real \<Rightarrow> real" where
  "fdiv x y = round_double (x / y)"

text \<open>
  Python's \<open>x % y\<close> on floats: the remainder of the division truncated towards zero,
  which is exact, moved by \<open>y\<close> when its sign is not the sign of \<open>y\<close>. The divisor is the
  constant 6 in \<open>rgb_to_hsl\<close>, so the \<open>ZeroDivisionError\<close> of a zero divisor cannot occur.
\<close>

definition py_fmod :: "real \<Rightarrow> real \<Rightarrow> real" where
  "py_fmod x y =
     (let q = x / y;
          m = x - y * of_int (if 0 \<le> q then \<lfloor>q\<rfloor> else \<lceil>q\<rceil>)
      in if m \<noteq> 0 \<and> ((y < 0) \<noteq> (m < 0)) then fadd m y else m)"

definition rgb_to_hsl :: "int \<Rightarrow> int \<Rightarrow> int \<Rightarrow> py_error + (real \<times> real \<times> real)" where
  "rgb_to_hsl r0 g0 b0 =
     (let r = fdiv (float_of_int r0) 255; g = fdiv (float_of_int g0) 255;
          b = fdiv (float_of_int b0) 255;
          max_c = max r (max g b); min_c = min r (min g b);
          diff = fsub max_c min_c;
          l = fdiv (fadd max_c min_c) 2
      in if diff = 0 then Inr (0, 0, fmul l 100)
         else if (if l > 1 / 2 then fsub (fsub 2 max_c) min_c else fadd max_c min_c) = 0
         then Inl ZeroDivisionError
         else
           (let s = (if l > 1 / 2 then fdiv diff (fsub (fsub 2 max_c) min_c)
                     else fdiv diff (fadd max_c min_c));
                h = (if max_c = r then py_fmod (fdiv (fsub g b) diff) 6
                     else if max_c = g then fadd (fdiv (fsub b r) diff) 2
                     else fadd (fdiv (fsub r g) diff) 4)
            in Inr (fmul h 60, fmul s 100, fmul l 100)))"

definition hsl_of :: "color \<Rightarrow> py_error + (real \<times> real \<times> real)" where
  "hsl_of c = (case c of (r, g, b) \<Rightarrow> rgb_to_hsl r g b)"

definition sq_dist :: "color \<Rightarrow> color \<Rightarrow> int" where
  "sq_dist c1 c2 =
     (case c1 of (r1, g1, b1) \<Rightarrow> case c2 of (r2, g2, b2) \<Rightarrow>
        (r1 - r2)\<^sup>2 + (g1 - g2)\<^sup>2 + (b1 - b2)\<^sup>2)"

definition color_distance :: "color \<Rightarrow> color \<Rightarrow> real" where
  "color_distance c1 c2 = sqrt (of_int (sq_dist c1 c2))"

section \<open>The colour filter: \<open>filter_colors\<close>\<close>

text \<open>
  The loop of \<open>filter_colors\<close>, with its two variables \<open>filtered\<close> and \<open>brown_count\<close>
  passed along. A \<open>continue\<close> is the recursive call with both unchanged.
\<close>

fun filter_loop :: "int \<Rightarrow> color list \<Rightarrow> int \<Rightarrow> color list \<Rightarrow> py_error + color list" where
  "filter_loop max_browns filtered brown_count [] = Inr filtered"
| "filter_loop max_browns filtered brown_count (rgb # rest) =
     (case hsl_of rgb of
        Inl e \<Rightarrow> Inl e
      | Inr (h, s, l) \<Rightarrow>
          if l < 15 \<or> l > 85 then filter_loop max_browns filtered brown_count rest
          else if s < 20 then filter_loop max_browns filtered brown_count rest
          else if s < 30 \<and> 25 < l \<and> l < 75
          then filter_loop max_browns filtered brown_count rest
          else if (15 \<le> h \<and> h \<le> 45) \<and> s < 55 \<and> (25 < l \<and> l < 65)
          then (if brown_count \<ge> max_browns
                then filter_loop max_browns filtered brown_count rest
                else filter_loop max_browns (filtered @ [rgb]) (brown_count + 1) rest)
          else filter_loop max_browns (filtered @ [rgb]) brown_count rest)"

text \<open>
  The key function \<open>lambda c: rgb_to_hsl(*c)[1]\<close> is applied to every element before any
  comparison, so an error of the key is raised before the list is sorted.
\<close>

fun saturation_keys :: "color list \<Rightarrow> py_error + real list" where
  "saturation_keys [] = Inr []"
| "saturation_keys (c # cs) =
     (case hsl_of c of
        Inl e \<Rightarrow> Inl e
      | Inr (h, s, l) \<Rightarrow>
          (case saturation_keys cs of Inl e \<Rightarrow> Inl e | Inr ks \<Rightarrow> Inr (s # ks)))"

text \<open>
  \<open>sorted(colors, key=..., reverse=True)\<close>: a stable sort by descending key; elements
  with equal keys keep their input order.
\<close>

definition sorted_by_saturation :: "color list \<Rightarrow> py_error + color list" where
  "sorted_by_saturation colors =
     (case saturation_keys colors of
        Inl e \<Rightarrow> Inl e
      | Inr ks \<Rightarrow> Inr (map snd (sort_key (\<lambda>p. - fst p) (zip ks colors))))"

definition filter_colors :: "color list \<Rightarrow> int \<Rightarrow> py_error + color list" where
  "filter_colors colors max_browns =
     (case filter_loop max_browns [] 0 colors of
        Inl e \<Rightarrow> Inl e
      | Inr filtered \<Rightarrow>
          if filtered = [] then sorted_by_saturation colors
          else sorted_by_saturation filtered)"

text \<open>
  The tests of the loop body as predicates on a colour, and the colours the loop keeps as
  a function of the cap and of the number of earth tones counted so far. They are used to
  state what the loop computes; a colour whose conversion raises satisfies none of them.
\<close>

definition saturation :: "color \<Rightarrow> real" where
  "saturation c = (case hsl_of c of Inl e \<Rightarrow> 0 | Inr (h, s, l) \<Rightarrow> s)"

definition rejected_by_rules :: "color \<Rightarrow> bool" where
  "rejected_by_rules c =
     (case hsl_of c of
        Inl e \<Rightarrow> False
      | Inr (h, s, l) \<Rightarrow> l < 15 \<or> l > 85 \<or> s < 20 \<or> (s < 30 \<and> 25 < l \<and> l < 75))"

definition is_brown :: "color \<Rightarrow> bool" where
  "is_brown c =
     (case hsl_of c of
        Inl e \<Rightarrow> False
      | Inr (h, s, l) \<Rightarrow> (15 \<le> h \<and> h \<le> 45) \<and> s < 55 \<and> (25 < l \<and> l < 65))"

fun survivors :: "int \<Rightarrow> int \<Rightarrow> color list \<Rightarrow> color list" where
  "survivors max_browns brown_count [] = []"
| "survivors max_browns brown_count (rgb # rest) =
     (if rejected_by_rules rgb then survivors max_browns brown_count rest
      else if is_brown rgb
      then (if brown_count \<ge> max_browns then survivors max_browns brown_count rest
            else rgb # survivors max_browns (brown_count + 1) rest)
      else rgb # survivors max_browns brown_count rest)"

section \<open>The diversity selector: \<open>ensure_diversity\<close>\<close>

fun diversity_loop :: "real \<Rightarrow> color list \<Rightarrow> color list \<Rightarrow> color list" where
  "diversity_loop min_distance diverse [] = diverse"
| "diversity_loop min_distance diverse (color # rest) =
     diversity_loop min_distance
       (if list_all (\<lambda>sel. color_distance color sel > min_distance) diverse
        then diverse @ [color] else diverse) rest"

definition ensure_diversity :: "color list \<Rightarrow> real \<Rightarrow> color list" where
  "ensure_diversity colors min_distance =
     (case colors of [] \<Rightarrow> [] | c # cs \<Rightarrow> diversity_loop min_distance [c] cs)"

fun pairwise_far :: "real \<Rightarrow> color list \<Rightarrow> bool" where
  "pairwise_far d [] = True"
| "pairwise_far d (x # xs) = (list_all (\<lambda>y. color_distance x y > d) xs \<and> pairwise_far d xs)"

section \<open>The aggregator: \<open>Counter(all_colors).most_common(NUM_COLORS)\<close>\<close>

text \<open>
  A \<open>Counter\<close> is a dictionary, and a dictionary keeps its keys in insertion order: an
  association list, a new key appended at the end, a known key counted in place.
\<close>

fun counter_add :: "'a \<Rightarrow> ('a \<times> nat) list \<Rightarrow> ('a \<times> nat) list" where
  "counter_add x [] = [(x, 1)]"
| "counter_add x ((y, n) # rest) =
     (if x = y then (y, n + 1) # rest else (y, n) # counter_add x rest)"

definition counter :: "'a list \<Rightarrow> ('a \<times> nat) list" where
  "counter xs = fold counter_add xs []"

text \<open>
  \<open>most_common(n)\<close> is the first \<open>n\<close> items of the items sorted by descending count,
  stably, so that equal counts stay in insertion order.
\<close>

definition most_common :: "nat \<Rightarrow> ('a \<times> nat) list \<Rightarrow> ('a \<times> nat) list" where
  "most_common n items = take n (sort_key (\<lambda>p. - int (snd p)) items)"

text \<open>
  The aggregation of \<open>process_city\<close>: \<open>all_colors\<close> is extended by each image's palette in
  turn; the module constant \<open>NUM_COLORS\<close> is the parameter \<open>num_colors\<close>.
\<close>

definition aggregate :: "'a list list \<Rightarrow> nat \<Rightarrow> 'a list" where
  "aggregate palettes num_colors =
     map fst (most_common num_colors (counter (concat palettes)))"

text \<open>
  The aggregation as the specification words it: the distinct colours in order of first
  occurrence, ranked by descending number of occurrences, ties left in that order.
\<close>

definition first_occurrences :: "'a list \<Rightarrow> 'a list" where
  "first_occurrences xs = rev (remdups (rev xs))"

definition aggregate_spec :: "'a list list \<Rightarrow> nat \<Rightarrow> 'a list" where
  "aggregate_spec palettes target_count =
     (let flat = concat palettes
      in take target_count
           (sort_key (\<lambda>c. - int (count_list flat c)) (first_occurrences flat)))"

section \<open>The quantizer: \<open>kmeans_colors\<close>\<close>

fun list_index :: "'a \<Rightarrow> 'a list \<Rightarrow> nat" where
  "list_index x [] = 0"
| "list_index x (y # ys) = (if x = y then 0 else Suc (list_index x ys))"

text \<open>\<open>distances.index(min(distances))\<close>; \<open>min\<close> raises \<open>ValueError\<close> on an empty list.\<close>

definition find_closest_centroid :: "color \<Rightarrow> color list \<Rightarrow> py_error + nat" where
  "find_closest_centroid pixel centroids =
     (let distances = map (color_distance pixel) centroids
      in if distances = [] then Inl ValueError
         else Inr (list_index (min_list distances) distances))"

definition calculate_centroid :: "color list \<Rightarrow> color" where
  "calculate_centroid pixels =
     (if pixels = [] then (128, 128, 128)
      else (sum_list (map fst pixels) div int (length pixels),
            sum_list (map (fst \<circ> snd) pixels) div int (length pixels),
            sum_list (map (snd \<circ> snd) pixels) div int (length pixels)))"

text \<open>Step 2 of an iteration: every pixel is appended to the cluster of its closest centroid.\<close>

fun assign_pixels ::
  "color list \<Rightarrow> color list list \<Rightarrow> color list \<Rightarrow> py_error + color list list" where
  "assign_pixels centroids clusters [] = Inr clusters"
| "assign_pixels centroids clusters (pixel # rest) =
     (case find_closest_centroid pixel centroids of
        Inl e \<Rightarrow> Inl e
      | Inr closest \<Rightarrow>
          if closest < length clusters
          then assign_pixels centroids
                 (clusters[closest := clusters ! closest @ [pixel]]) rest
          else Inl IndexError)"

text \<open>
  Step 3: the new centroid of a non-empty cluster is its mean; an empty cluster keeps
  \<open>centroids[i]\<close>, which raises \<open>IndexError\<close> when there is no centroid \<open>i\<close>.
\<close>

fun new_centroids_from :: "color list \<Rightarrow> nat \<Rightarrow> color list list \<Rightarrow> py_error + color list" where
  "new_centroids_from centroids i [] = Inr []"
| "new_centroids_from centroids i (cluster # rest) =
     (if cluster \<noteq> []
      then (case new_centroids_from centroids (Suc i) rest of
              Inl e \<Rightarrow> Inl e
            | Inr cs \<Rightarrow> Inr (calculate_centroid cluster # cs))
      else if i < length centroids
      then (case new_centroids_from centroids (Suc i) rest of
              Inl e \<Rightarrow> Inl e
            | Inr cs \<Rightarrow> Inr (centroids ! i # cs))
      else Inl IndexError)"

text \<open>
  The \<open>for iteration in range(max_iterations)\<close> loop, the remaining iterations counted
  down. The variable \<open>clusters\<close> is unbound (\<open>None\<close>) until the first iteration has run.
  The \<open>break\<close> leaves \<open>centroids\<close> as it was; otherwise it becomes \<open>new_centroids\<close>.
\<close>

fun kmeans_loop ::
  "nat \<Rightarrow> nat \<Rightarrow> color list \<Rightarrow> color list \<Rightarrow> color list list option
     \<Rightarrow> py_error + (color list \<times> color list list option)" where
  "kmeans_loop 0 k pixels centroids clusters = Inr (centroids, clusters)"
| "kmeans_loop (Suc n) k pixels centroids clusters =
     (case assign_pixels centroids (replicate k []) pixels of
        Inl e \<Rightarrow> Inl e
      | Inr cl \<Rightarrow>
          (case new_centroids_from centroids 0 cl of
             Inl e \<Rightarrow> Inl e
           | Inr new_centroids \<Rightarrow>
               if new_centroids = centroids then Inr (centroids, Some cl)
               else kmeans_loop n k pixels new_centroids (Some cl)))"

text \<open>
  \<open>[(len(clusters[i]), centroids[i]) for i in range(k)]\<close>, with the out-of-range reads
  written out.
\<close>

definition cluster_sizes ::
  "nat \<Rightarrow> color list \<Rightarrow> color list list \<Rightarrow> py_error + (nat \<times> color) list" where
  "cluster_sizes k centroids clusters =
     (if k \<le> length clusters \<and> k \<le> length centroids
      then Inr (map (\<lambda>i. (length (clusters ! i), centroids ! i)) [0..<k])
      else Inl IndexError)"

text \<open>
  \<open>list.sort(reverse=True)\<close> on tuples: the list is reversed, sorted stably in ascending
  order of the tuples (compared lexicographically) and reversed again.
\<close>

definition sort_reverse :: "'a::linorder list \<Rightarrow> 'a list" where
  "sort_reverse xs = rev (sort (rev xs))"

text \<open>
  Modelled from the Python standard library, \<open>random.sample(population, n)\<close>: it picks
  \<open>n\<close> distinct positions of the population and returns the elements there, and raises
  \<open>ValueError\<close> when \<open>n\<close> is negative. The positions picked are the argument \<open>idxs\<close>, the
  only source of randomness of the program.
\<close>

definition valid_sample :: "nat list \<Rightarrow> color list \<Rightarrow> int \<Rightarrow> bool" where
  "valid_sample idxs pixels k =
     (distinct idxs \<and> list_all (\<lambda>i. i < length pixels) idxs
      \<and> int (length idxs) = min k (int (length pixels)))"

definition random_sample :: "nat list \<Rightarrow> color list \<Rightarrow> color list" where
  "random_sample idxs pixels = map (\<lambda>i. pixels ! i) idxs"

definition kmeans_colors ::
  "nat list \<Rightarrow> color list \<Rightarrow> int \<Rightarrow> int \<Rightarrow> py_error + color list" where
  "kmeans_colors idxs pixels k max_iterations =
     (if min k (int (length pixels)) < 0 then Inl ValueError
      else
        (case kmeans_loop (nat max_iterations) (nat k) pixels (random_sample idxs pixels) None of
           Inl e \<Rightarrow> Inl e
         | Inr (centroids, clusters) \<Rightarrow>
             if k \<le> 0 then Inr []
             else (case clusters of
                     None \<Rightarrow> Inl NameError
                   | Some cl \<Rightarrow>
                       (case cluster_sizes (nat k) centroids cl of
                          Inl e \<Rightarrow> Inl e
                        | Inr sizes \<Rightarrow> Inr (map snd (sort_reverse sizes))))))"

text \<open>
  A run of \<open>kmeans_colors(pixels, k, max_iterations)\<close> as a relation: the run draws its
  sample, \<open>initial\<close> is the list of centroids drawn and \<open>result\<close> what the call returns or
  raises. A negative sample size raises before anything is drawn.
\<close>

inductive kmeans_colors_run ::
  "color list \<Rightarrow> int \<Rightarrow> int \<Rightarrow> color list \<Rightarrow> py_error + color list \<Rightarrow> bool" where
  drawn: "valid_sample idxs pixels k \<Longrightarrow> initial = random_sample idxs pixels \<Longrightarrow>
          result = kmeans_colors idxs pixels k max_iterations \<Longrightarrow>
          kmeans_colors_run pixels k max_iterations initial result"
| negative: "min k (int (length pixels)) < 0 \<Longrightarrow>
          kmeans_colors_run pixels k max_iterations [] (Inl ValueError)"

section \<open>Distances\<close>

lemma sq_dist_nonneg: "0 \<le> sq_dist c1 c2"
  by (cases c1; cases c2) (simp add: sq_dist_def)

lemma sq_dist_sym: "sq_dist c1 c2 = sq_dist c2 c1"
  by (cases c1; cases c2) (simp add: sq_dist_def power2_commute)

lemma color_distance_sym: "color_distance c1 c2 = color_distance c2 c1"
  by (simp add: color_distance_def sq_dist_sym)

text \<open>
  Comparing a distance with a threshold needs no square root: this is how a distance test
  is evaluated on concrete colours.
\<close>

lemma color_distance_gt_iff:
  "(d < color_distance c1 c2) = (d < 0 \<or> d\<^sup>2 < of_int (sq_dist c1 c2))"
proof (cases "d < 0")
  case True
  have "0 \<le> color_distance c1 c2"
    by (simp add: color_distance_def sq_dist_nonneg)
  with True show ?thesis by simp
next
  case False
  then have d: "0 \<le> d" by simp
  have "(d < sqrt (of_int (sq_dist c1 c2))) = (d\<^sup>2 < of_int (sq_dist c1 c2))"
    using d by (metis real_less_rsqrt real_sqrt_less_iff real_sqrt_abs abs_of_nonneg)
  with False show ?thesis by (simp add: color_distance_def)
qed

section \<open>Properties of the diversity selector\<close>

lemma pairwise_far_snoc:
  "pairwise_far d (xs @ [c]) =
     (pairwise_far d xs \<and> list_all (\<lambda>sel. color_distance c sel > d) xs)"
  by (induction xs) (auto simp: color_distance_sym)

lemma diversity_loop_prefix: "\<exists>zs. diversity_loop d acc cs = acc @ zs \<and> subseq zs cs"
proof (induction cs arbitrary: acc)
  case Nil
  show ?case by simp
next
  case (Cons c cs)
  show ?case
  proof (cases "list_all (\<lambda>sel. color_distance c sel > d) acc")
    case True
    from Cons.IH[of "acc @ [c]"] obtain zs where
      "diversity_loop d (acc @ [c]) cs = (acc @ [c]) @ zs" "subseq zs cs" by blast
    with True show ?thesis by (intro exI[of _ "c # zs"]) simp
  next
    case False
    from Cons.IH[of acc] obtain zs where
      "diversity_loop d acc cs = acc @ zs" "subseq zs cs" by blast
    with False show ?thesis by (intro exI[of _ zs]) (simp add: list_emb_Cons)
  qed
qed

lemma diversity_loop_far: "pairwise_far d acc \<Longrightarrow> pairwise_far d (diversity_loop d acc cs)"
  by (induction cs arbitrary: acc) (simp_all add: pairwise_far_snoc)

lemma diversity_loop_fixed: "pairwise_far d (acc @ ys) \<Longrightarrow> diversity_loop d acc ys = acc @ ys"
proof (induction ys arbitrary: acc)
  case Nil
  show ?case by simp
next
  case (Cons y ys)
  from Cons.prems have far: "pairwise_far d ((acc @ [y]) @ ys)" by simp
  have "pairwise_far d (acc @ [y])" using far
    by (induction acc) (auto simp: list_all_iff)
  then have "list_all (\<lambda>sel. color_distance y sel > d) acc"
    by (simp add: pairwise_far_snoc)
  with Cons.IH[OF far] show ?case by simp
qed

lemma pairwise_far_nth:
  "pairwise_far d xs \<Longrightarrow> i < j \<Longrightarrow> j < length xs \<Longrightarrow> color_distance (xs ! i) (xs ! j) > d"
proof (induction xs arbitrary: i j)
  case Nil
  then show ?case by simp
next
  case (Cons x xs)
  show ?case
  proof (cases i)
    case 0
    with Cons.prems obtain j' where j: "j = Suc j'" "j' < length xs" by (cases j) auto
    with Cons.prems(1) 0 show ?thesis by (auto simp: list_all_iff)
  next
    case (Suc i')
    with Cons.prems obtain j' where j: "j = Suc j'" "i' < j'" "j' < length xs" by (cases j) auto
    with Cons.IH[of i' j'] Cons.prems(1) Suc show ?thesis by simp
  qed
qed

text \<open>
  Claim C5. For a non-empty input and any minimum distance, \<open>ensure_diversity\<close> keeps the
  first input colour, returns a subsequence of the input (the kept colours in their input
  order), and any two colours at different positions of the output are more than the
  minimum distance apart.
\<close>

theorem ensure_diversity_contract:
  assumes "colors \<noteq> []"
  shows "hd (ensure_diversity colors d) = hd colors
       \<and> subseq (ensure_diversity colors d) colors
       \<and> (\<forall>i j. i < length (ensure_diversity colors d)
                \<and> j < length (ensure_diversity colors d) \<and> i \<noteq> j
            \<longrightarrow> color_distance (ensure_diversity colors d ! i)
                               (ensure_diversity colors d ! j) > d)"
proof -
  from assms obtain c cs where colors: "colors = c # cs" by (cases colors) auto
  obtain zs where zs: "diversity_loop d [c] cs = [c] @ zs" "subseq zs cs"
    using diversity_loop_prefix[of d "[c]" cs] by blast
  have out: "ensure_diversity colors d = c # zs"
    using zs by (simp add: ensure_diversity_def colors)
  have far: "pairwise_far d (ensure_diversity colors d)"
    using diversity_loop_far[of d "[c]" cs] by (simp add: ensure_diversity_def colors)
  have pair: "color_distance (ensure_diversity colors d ! i) (ensure_diversity colors d ! j) > d"
    if "i < length (ensure_diversity colors d)" "j < length (ensure_diversity colors d)"
       "i \<noteq> j" for i j
  proof (cases "i < j")
    case True
    with far that show ?thesis by (simp add: pairwise_far_nth)
  next
    case False
    with that have "j < i" by simp
    with far that
    have "color_distance (ensure_diversity colors d ! j) (ensure_diversity colors d ! i) > d"
      by (simp add: pairwise_far_nth)
    then show ?thesis by (simp add: color_distance_sym)
  qed
  show ?thesis using out zs(2) pair by (simp add: colors)
qed

theorem ensure_diversity_contract_witness:
  "[(10,10,10),(20,20,20),(200,10,10)] \<noteq> ([] :: color list)
   \<and> ensure_diversity [(10,10,10),(20,20,20),(200,10,10)] 30 = [(10,10,10),(200,10,10)]
   \<and> hd (ensure_diversity [(10,10,10),(20,20,20),(200,10,10)] 30) = (10,10,10)
   \<and> subseq (ensure_diversity [(10,10,10),(20,20,20),(200,10,10)] 30)
        [(10,10,10),(20,20,20),(200,10,10)]
   \<and> color_distance (ensure_diversity [(10,10,10),(20,20,20),(200,10,10)] 30 ! 0)
        (ensure_diversity [(10,10,10),(20,20,20),(200,10,10)] 30 ! 1) > 30"
proof -
  have ne: "[(10,10,10),(20,20,20),(200,10,10)] \<noteq> ([] :: color list)" by simp
  have out: "ensure_diversity [(10,10,10),(20,20,20),(200,10,10)] 30 = [(10,10,10),(200,10,10)]"
    by (simp add: ensure_diversity_def color_distance_gt_iff sq_dist_def)
  from ensure_diversity_contract[OF ne, of 30] out
  have "hd (ensure_diversity [(10,10,10),(20,20,20),(200,10,10)] 30) = (10,10,10)"
    and "subseq (ensure_diversity [(10,10,10),(20,20,20),(200,10,10)] 30)
        [(10,10,10),(20,20,20),(200,10,10)]"
    and "\<forall>i j. i < 2 \<and> j < 2 \<and> i \<noteq> j \<longrightarrow>
          color_distance ([(10,10,10),(200,10,10)] ! i) ([(10,10,10),(200,10,10)] ! j) > 30"
    by simp_all
  moreover from this(3) have "color_distance ([(10,10,10),(200,10,10)] ! 0) ([(10,10,10),(200,10,10)] ! 1) > 30"
    by (metis (no_types) zero_neq_one zero_less_numeral one_less_numeral_iff semiring_norm(76))
  ultimately show ?thesis using ne out by simp
qed

text \<open>
  Claim C10. The diversity selector is idempotent: its output is already pairwise far
  apart, so a second pass keeps every colour of it.
\<close>

theorem ensure_diversity_idempotent:
  "ensure_diversity (ensure_diversity xs d) d = ensure_diversity xs d"
proof (cases xs)
  case Nil
  then show ?thesis by (simp add: ensure_diversity_def)
next
  case (Cons c cs)
  obtain zs where zs: "diversity_loop d [c] cs = [c] @ zs"
    using diversity_loop_prefix[of d "[c]" cs] by blast
  have far: "pairwise_far d ([c] @ zs)"
    using diversity_loop_far[of d "[c]" cs] zs by simp
  have "diversity_loop d [c] zs = [c] @ zs"
    by (rule diversity_loop_fixed[OF far])
  with zs show ?thesis by (simp add: ensure_diversity_def Cons)
qed

theorem ensure_diversity_idempotent_witness:
  "ensure_diversity (ensure_diversity [(10,10,10),(20,20,20),(200,10,10)] 30) 30 = [(10,10,10),(200,10,10)]"
proof -
  have out: "ensure_diversity [(10,10,10),(20,20,20),(200,10,10)] 30 = [(10,10,10),(200,10,10)]"
    by (simp add: ensure_diversity_def color_distance_gt_iff sq_dist_def)
  show ?thesis
    using ensure_diversity_idempotent[of "[(10,10,10),(20,20,20),(200,10,10)]" 30] out by simp
qed

section \<open>Properties of the hexadecimal conversion\<close>

lemma nat_less_16_cases:
  "(a::nat) < 16 \<Longrightarrow> a \<in> {0, 1, 2, 3, 4, 5, 6, 7, 8, 9, 10, 11, 12, 13, 14, 15}"
  by (simp only: insert_iff empty_iff) arith

lemma hex_digit_value_hex_digit: "a < 16 \<Longrightarrow> hex_digit_value (hex_digit a) = Some a"
  by (drule nat_less_16_cases) (auto simp: hex_digit_def hex_digit_value_def)

lemma hex_digit_lower: "a < 16 \<Longrightarrow> hex_digit a \<in> set ''0123456789abcdef''"
  by (drule nat_less_16_cases) (auto simp: hex_digit_def)

lemma hex_digit_plain:
  "a < 16 \<Longrightarrow> \<not> py_isspace (hex_digit a) \<and> hex_digit a \<noteq> CHR ''_'' \<and> hex_digit a \<noteq> CHR ''-''
     \<and> hex_digit a \<noteq> CHR ''+'' \<and> hex_digit a \<noteq> CHR ''x'' \<and> hex_digit a \<noteq> CHR ''X''
     \<and> hex_digit a \<noteq> CHR ''#''"
  by (drule nat_less_16_cases) (auto simp: hex_digit_def py_isspace_def)

lemma hex_digit_0: "hex_digit 0 = CHR ''0''"
  by (simp add: hex_digit_def)

lemma format_02x_byte:
  assumes "0 \<le> n" "n \<le> 255"
  shows "format_02x n = [hex_digit (nat n div 16), hex_digit (nat n mod 16)]"
proof (cases "nat n < 16")
  case True
  then have "hex_of_nat (nat n) = [hex_digit (nat n)]" by (simp add: hex_of_nat.simps)
  with True assms show ?thesis by (simp add: format_02x_def zero_pad_def hex_digit_0)
next
  case False
  from assms have "nat n div 16 < 16" by linarith
  then have "hex_of_nat (nat n div 16) = [hex_digit (nat n div 16)]"
    by (simp add: hex_of_nat.simps)
  with False have "hex_of_nat (nat n) = [hex_digit (nat n div 16), hex_digit (nat n mod 16)]"
    by (subst hex_of_nat.simps) simp
  with assms show ?thesis by (simp add: format_02x_def zero_pad_def)
qed

lemma py_int16_two_digits:
  assumes "a < 16" "b < 16"
  shows "py_int16 [hex_digit a, hex_digit b] = Inr (int (a * 16 + b))"
  using hex_digit_plain[OF assms(1)] hex_digit_plain[OF assms(2)]
  by (simp add: py_int16_def py_strip_def hex_digit_value_hex_digit[OF assms(1)]
        hex_digit_value_hex_digit[OF assms(2)])

lemma py_int16_format_02x:
  assumes "0 \<le> n" "n \<le> 255"
  shows "py_int16 (format_02x n) = Inr n"
proof -
  from assms have "nat n div 16 < 16" "nat n mod 16 < 16" by linarith+
  then have "py_int16 [hex_digit (nat n div 16), hex_digit (nat n mod 16)]
               = Inr (int (nat n div 16 * 16 + nat n mod 16))"
    by (rule py_int16_two_digits)
  with assms show ?thesis by (simp add: format_02x_byte)
qed

text \<open>
  Claim C8. For channels in \<open>[0, 255]\<close>, \<open>rgb_to_hex\<close> returns exactly seven characters,
  a \<open>#\<close> followed by six lowercase hexadecimal digits; \<open>hex_to_rgb\<close> reads the colour
  back without error, and converting that colour to hex again gives the same string.
\<close>

theorem rgb_to_hex_roundtrip:
  assumes "valid_color (r, g, b)"
  shows "length (rgb_to_hex r g b) = 7
       \<and> hd (rgb_to_hex r g b) = CHR ''#''
       \<and> set (tl (rgb_to_hex r g b)) \<subseteq> set ''0123456789abcdef''
       \<and> hex_to_rgb (rgb_to_hex r g b) = Inr (r, g, b)
       \<and> (\<exists>r' g' b'. hex_to_rgb (rgb_to_hex r g b) = Inr (r', g', b')
                    \<and> rgb_to_hex r' g' b' = rgb_to_hex r g b)"
proof -
  from assms have rng: "0 \<le> r" "r \<le> 255" "0 \<le> g" "g \<le> 255" "0 \<le> b" "b \<le> 255"
    by (simp_all add: valid_color_def)
  let ?R = "[hex_digit (nat r div 16), hex_digit (nat r mod 16)]"
  let ?G = "[hex_digit (nat g div 16), hex_digit (nat g mod 16)]"
  let ?B = "[hex_digit (nat b div 16), hex_digit (nat b mod 16)]"
  have fmt: "format_02x r = ?R" "format_02x g = ?G" "format_02x b = ?B"
    using rng by (simp_all add: format_02x_byte)
  have hex: "rgb_to_hex r g b = CHR ''#'' # ?R @ ?G @ ?B"
    by (simp add: rgb_to_hex_def fmt)
  have lt: "nat r div 16 < 16" "nat r mod 16 < 16" "nat g div 16 < 16" "nat g mod 16 < 16"
           "nat b div 16 < 16" "nat b mod 16 < 16"
    using rng by linarith+
  have len7: "length (rgb_to_hex r g b) = 7" by (simp add: hex)
  have hd1: "hd (rgb_to_hex r g b) = CHR ''#''" by (simp add: hex)
  have digits: "set (tl (rgb_to_hex r g b)) \<subseteq> set ''0123456789abcdef''"
    using lt[THEN hex_digit_lower] unfolding hex by simp
  have nohash: "hex_digit (nat r div 16) \<noteq> CHR ''#''"
    using hex_digit_plain[OF lt(1)] by simp
  have strip: "dropWhile (\<lambda>c. c = CHR ''#'') (rgb_to_hex r g b) = ?R @ ?G @ ?B"
    using nohash by (simp add: hex)
  have rt: "hex_to_rgb (rgb_to_hex r g b) = Inr (r, g, b)"
    using py_int16_format_02x[OF rng(1,2)] py_int16_format_02x[OF rng(3,4)]
      py_int16_format_02x[OF rng(5,6)]
    unfolding hex_to_rgb_def strip by (simp add: slice2_def fmt)
  from len7 hd1 digits rt show ?thesis by simp
qed

theorem rgb_to_hex_roundtrip_witness:
  "valid_color (255, 107, 107) \<and> rgb_to_hex 255 107 107 = ''#ff6b6b''
   \<and> hex_to_rgb ''#ff6b6b'' = Inr (255, 107, 107)"
proof -
  have v: "valid_color (255, 107, 107)" by (simp add: valid_color_def)
  have h: "rgb_to_hex 255 107 107 = ''#ff6b6b''"
    by (simp add: rgb_to_hex_def format_02x_def zero_pad_def hex_of_nat.simps hex_digit_def)
  from rgb_to_hex_roundtrip[OF v] h v show ?thesis by simp
qed

section \<open>Properties of the aggregator\<close>

lemma first_occurrences_snoc:
  "first_occurrences (xs @ [x]) =
     (if x \<in> set xs then first_occurrences xs else first_occurrences xs @ [x])"
  by (simp add: first_occurrences_def)

lemma set_first_occurrences: "set (first_occurrences xs) = set xs"
  by (simp add: first_occurrences_def)

lemma distinct_first_occurrences: "distinct (first_occurrences xs)"
  by (simp add: first_occurrences_def)

lemma counter_add_known:
  "distinct ks \<Longrightarrow> x \<in> set ks \<Longrightarrow>
     counter_add x (map (\<lambda>c. (c, f c)) ks) = map (\<lambda>c. (c, if c = x then f c + 1 else f c)) ks"
  by (induction ks) auto

lemma counter_add_new:
  "x \<notin> set ks \<Longrightarrow> counter_add x (map (\<lambda>c. (c, f c)) ks) = map (\<lambda>c. (c, f c)) ks @ [(x, 1)]"
  by (induction ks) auto

lemma count_list_snoc: "count_list (xs @ [x]) c = count_list xs c + (if c = x then 1 else 0)"
  by (induction xs) auto

lemma counter_snoc: "counter (xs @ [x]) = counter_add x (counter xs)"
  by (simp add: counter_def)

lemma counter_eq:
  "counter xs = map (\<lambda>c. (c, count_list xs c)) (first_occurrences xs)"
proof (induction xs rule: rev_induct)
  case Nil
  show ?case by (simp add: counter_def first_occurrences_def)
next
  case (snoc x xs)
  show ?case
  proof (cases "x \<in> set xs")
    case True
    then have "counter_add x (map (\<lambda>c. (c, count_list xs c)) (first_occurrences xs))
        = map (\<lambda>c. (c, if c = x then count_list xs c + 1 else count_list xs c))
            (first_occurrences xs)"
      by (intro counter_add_known) (simp_all add: distinct_first_occurrences set_first_occurrences)
    with True snoc show ?thesis
      by (simp add: counter_snoc first_occurrences_snoc count_list_snoc)
  next
    case False
    then have "counter_add x (map (\<lambda>c. (c, count_list xs c)) (first_occurrences xs))
        = map (\<lambda>c. (c, count_list xs c)) (first_occurrences xs) @ [(x, 1)]"
      by (intro counter_add_new) (simp add: set_first_occurrences)
    moreover have "count_list xs x = 0" using False by (simp add: count_list_0_iff)
    moreover have "\<forall>c \<in> set (first_occurrences xs). c \<noteq> x"
      using False by (auto simp: set_first_occurrences)
    ultimately show ?thesis using False snoc
      by (auto simp: counter_snoc first_occurrences_snoc count_list_snoc)
  qed
qed

lemma insort_key_map:
  "insort_key f (g x) (map g xs) = map g (insort_key (f \<circ> g) x xs)"
  by (induction xs) auto

lemma sort_key_map: "sort_key f (map g xs) = map g (sort_key (f \<circ> g) xs)"
  by (induction xs) (simp_all add: insort_key_map del: o_apply)

lemma aggregate_refines: "aggregate palettes n = aggregate_spec palettes n"
  by (simp add: aggregate_def aggregate_spec_def most_common_def counter_eq sort_key_map
        take_map comp_def Let_def)

text \<open>The ranking of a stable sort by key: ascending keys, equal keys in input order.\<close>

lemma subseq_pair_nth:
  assumes "i < j" "j < length ys"
  shows "subseq [ys ! i, ys ! j] ys"
proof -
  have "ys = take i ys @ ys ! i # drop (Suc i) ys"
    using assms by (simp add: id_take_nth_drop)
  moreover have "ys ! j \<in> set (drop (Suc i) ys)"
    using assms by (auto simp: in_set_conv_nth intro!: exI[of _ "j - Suc i"])
  then have "subseq [ys ! j] (drop (Suc i) ys)" by (simp add: subseq_singleton_left)
  then have "subseq ([ys ! i] @ [ys ! j]) ([ys ! i] @ drop (Suc i) ys)"
    by (simp only: subseq_append')
  then have "subseq [ys ! i, ys ! j] (take i ys @ ys ! i # drop (Suc i) ys)"
    by (metis append_Cons append_Nil list_emb_append2)
  ultimately show ?thesis by simp
qed

lemma sort_key_ranking:
  assumes "i < j" "j < length xs"
  shows "f (sort_key f xs ! i) < f (sort_key f xs ! j)
       \<or> (f (sort_key f xs ! i) = f (sort_key f xs ! j)
          \<and> subseq [sort_key f xs ! i, sort_key f xs ! j] xs)"
proof -
  let ?ys = "sort_key f xs"
  have "sorted (map f ?ys)" by (rule sorted_sort_key)
  with assms have le: "f (?ys ! i) \<le> f (?ys ! j)"
    by (auto simp: sorted_iff_nth_mono_less dest!: spec[of _ i] spec[of _ j])
  show ?thesis
  proof (cases "f (?ys ! i) = f (?ys ! j)")
    case True
    let ?P = "\<lambda>y. f y = f (?ys ! j)"
    have "subseq [?ys ! i, ?ys ! j] ?ys" using assms by (intro subseq_pair_nth) simp_all
    then have "subseq (filter ?P [?ys ! i, ?ys ! j]) (filter ?P ?ys)"
      by (rule subseq_filter)
    then have "subseq [?ys ! i, ?ys ! j] (filter ?P xs)"
      using True by (simp add: sort_key_stable)
    then have "subseq [?ys ! i, ?ys ! j] xs"
      using subseq_filter_left subseq_order.order_trans by blast
    with True show ?thesis by simp
  next
    case False
    with le show ?thesis by simp
  qed
qed


lemma aggregate_example:
  "A \<noteq> B \<Longrightarrow> B \<noteq> C \<Longrightarrow> A \<noteq> C \<Longrightarrow> aggregate [[A, B], [B, C], [B, A]] 2 = [B, A]"
  by (simp add: aggregate_def most_common_def counter_def)

text \<open>
  Claim C4. The aggregation ranks the distinct colours of the flattened palettes by
  descending number of occurrences and returns the first \<open>num_colors\<close> of them: the result
  has no duplicates, every colour left out occurs at most as often as every colour
  returned, a colour returned earlier occurs more often than a later one or, on equal
  counts, occurs first in the flattened sequence. For the palettes \<open>[A,B], [B,C], [B,A]\<close>
  and \<open>num_colors = 2\<close> the result is \<open>[B, A]\<close>.
\<close>

theorem aggregate_most_frequent:
  "aggregate palettes n = aggregate_spec palettes n
   \<and> distinct (aggregate palettes n)
   \<and> set (aggregate palettes n) \<subseteq> set (concat palettes)
   \<and> length (aggregate palettes n) = min n (card (set (concat palettes)))
   \<and> (\<forall>i j. i < j \<and> j < length (aggregate palettes n) \<longrightarrow>
         count_list (concat palettes) (aggregate palettes n ! j)
           < count_list (concat palettes) (aggregate palettes n ! i)
         \<or> (count_list (concat palettes) (aggregate palettes n ! i)
              = count_list (concat palettes) (aggregate palettes n ! j)
            \<and> subseq [aggregate palettes n ! i, aggregate palettes n ! j]
                 (first_occurrences (concat palettes))))
   \<and> (\<forall>c \<in> set (concat palettes) - set (aggregate palettes n).
        \<forall>c' \<in> set (aggregate palettes n).
          count_list (concat palettes) c \<le> count_list (concat palettes) c')
   \<and> (A \<noteq> B \<and> B \<noteq> C \<and> A \<noteq> C \<longrightarrow> aggregate [[A, B], [B, C], [B, A]] 2 = [B, A])"
proof -
  let ?flat = "concat palettes"
  let ?ks = "first_occurrences ?flat"
  let ?f = "\<lambda>c. - int (count_list ?flat c)"
  let ?srt = "sort_key ?f ?ks"
  have refine: "aggregate palettes n = aggregate_spec palettes n" by (rule aggregate_refines)
  have out: "aggregate palettes n = take n ?srt"
    by (simp add: refine aggregate_spec_def Let_def)
  have dist: "distinct (aggregate palettes n)"
    by (simp add: out distinct_first_occurrences)
  have sub: "set (aggregate palettes n) \<subseteq> set ?flat"
    using set_take_subset[of n ?srt] by (simp add: out set_first_occurrences)
  have "length ?ks = card (set ?flat)"
    using distinct_card[OF distinct_first_occurrences[of ?flat]]
    by (simp add: set_first_occurrences)
  then have len: "length (aggregate palettes n) = min n (card (set ?flat))"
    by (simp add: out min.commute)
  have rank: "count_list ?flat (aggregate palettes n ! j) < count_list ?flat (aggregate palettes n ! i)
         \<or> (count_list ?flat (aggregate palettes n ! i) = count_list ?flat (aggregate palettes n ! j)
            \<and> subseq [aggregate palettes n ! i, aggregate palettes n ! j] ?ks)"
    if "i < j" "j < length (aggregate palettes n)" for i j
  proof -
    from that have j: "j < length ?ks" "j < n" "i < n" by (simp_all add: out)
    from sort_key_ranking[OF that(1) j(1), of ?f] j show ?thesis
      by (simp add: out)
  qed
  have rest: "count_list ?flat c \<le> count_list ?flat c'"
    if "c \<in> set ?flat - set (aggregate palettes n)" "c' \<in> set (aggregate palettes n)" for c c'
  proof -
    have "c \<in> set ?srt" using that(1) by (simp add: set_first_occurrences)
    then have "c \<in> set (take n ?srt @ drop n ?srt)" by (simp only: append_take_drop_id)
    then have "c \<in> set (take n ?srt) \<or> c \<in> set (drop n ?srt)"
      by (simp only: set_append Un_iff)
    moreover have "c \<notin> set (take n ?srt)" using that(1) by (simp add: out)
    ultimately have c: "c \<in> set (drop n ?srt)" by blast
    have "sorted (map ?f ?srt)" by (rule sorted_sort_key)
    then have "sorted (map ?f (take n ?srt @ drop n ?srt))"
      by (simp only: append_take_drop_id)
    then have "sorted (map ?f (take n ?srt) @ map ?f (drop n ?srt))"
      by (simp only: map_append)
    then have "\<forall>x \<in> set (map ?f (take n ?srt)). \<forall>y \<in> set (map ?f (drop n ?srt)). x \<le> y"
      unfolding sorted_append by (elim conjE)
    then have "\<forall>x \<in> set (take n ?srt). \<forall>y \<in> set (drop n ?srt). ?f x \<le> ?f y"
      unfolding set_map by blast
    with c that(2) show ?thesis by (simp add: out)
  qed
  have ranked: "\<forall>i j. i < j \<and> j < length (aggregate palettes n) \<longrightarrow>
         count_list ?flat (aggregate palettes n ! j) < count_list ?flat (aggregate palettes n ! i)
         \<or> (count_list ?flat (aggregate palettes n ! i) = count_list ?flat (aggregate palettes n ! j)
            \<and> subseq [aggregate palettes n ! i, aggregate palettes n ! j] ?ks)"
    using rank by blast
  have others: "\<forall>c \<in> set ?flat - set (aggregate palettes n).
        \<forall>c' \<in> set (aggregate palettes n). count_list ?flat c \<le> count_list ?flat c'"
    using rest by blast
  have example: "A \<noteq> B \<and> B \<noteq> C \<and> A \<noteq> C \<longrightarrow> aggregate [[A, B], [B, C], [B, A]] 2 = [B, A]"
    using aggregate_example[of A B C] by blast
  show ?thesis
    by (intro conjI) (rule refine dist sub len ranked others example)+
qed

theorem aggregate_most_frequent_witness:
  "aggregate [[''#aa0000'', ''#00bb00''], [''#00bb00'', ''#0000cc''], [''#00bb00'', ''#aa0000'']] 2
     = [''#00bb00'', ''#aa0000'']"
proof -
  note inst = aggregate_most_frequent
    [of "[[''#aa0000'', ''#00bb00''], [''#00bb00'', ''#0000cc''], [''#00bb00'', ''#aa0000'']]" 2
        "''#aa0000''" "''#00bb00''" "''#0000cc''"]
  note last = inst[THEN conjunct2, THEN conjunct2, THEN conjunct2, THEN conjunct2,
                   THEN conjunct2, THEN conjunct2]
  have "''#aa0000'' \<noteq> ''#00bb00'' \<and> ''#00bb00'' \<noteq> ''#0000cc'' \<and> ''#aa0000'' \<noteq> ''#0000cc''"
    by simp
  with last show ?thesis by (rule mp)
qed

section \<open>Properties of the double-precision arithmetic\<close>

lemmas float_ops = float_of_int_def fadd_def fsub_def fmul_def fdiv_def py_fmod_def

lemma rne_of_int: "rne (of_int n) = n"
  by (simp add: rne_def)

lemma rne_ge: "of_int n \<le> x \<Longrightarrow> n \<le> rne x"
proof -
  assume "of_int n \<le> x"
  then have "n \<le> \<lfloor>x\<rfloor>" by (simp add: le_floor_iff)
  then show ?thesis by (auto simp: rne_def Let_def)
qed

lemma rne_le: "x \<le> of_int n \<Longrightarrow> rne x \<le> n"
proof -
  assume x: "x \<le> of_int n"
  show ?thesis
  proof (cases "x = of_int n")
    case True
    then show ?thesis by (simp add: rne_of_int)
  next
    case False
    with x have "x < of_int n" by simp
    then have "\<lfloor>x\<rfloor> < n" by (simp add: floor_less_iff)
    then have "\<lfloor>x\<rfloor> + 1 \<le> n" by simp
    then show ?thesis by (auto simp: rne_def Let_def)
  qed
qed

lemma round_double_0: "round_double 0 = 0"
  by (simp add: round_double_def)

lemma powr2_int: "(2::real) powr (of_int e) = 2 powi e"
  by (rule powr_real_of_int') simp_all

lemma le_log2_iff: "0 < x \<Longrightarrow> (of_int e \<le> log 2 x) = (2 powi e \<le> x)"
  using le_log_iff[of 2 x "of_int e"] by (simp add: powr2_int)

lemma log2_less_iff: "0 < x \<Longrightarrow> (log 2 x < of_int e) = (x < 2 powi e)"
  using le_log2_iff[of x e] by linarith

lemma binade:
  assumes "0 < x"
  shows "2 powi \<lfloor>log 2 x\<rfloor> \<le> x" "x < 2 powi (\<lfloor>log 2 x\<rfloor> + 1)"
proof -
  have "of_int \<lfloor>log 2 x\<rfloor> \<le> log 2 x" by simp
  then show "2 powi \<lfloor>log 2 x\<rfloor> \<le> x" by (simp only: le_log2_iff[OF assms])
  have "log 2 x < of_int (\<lfloor>log 2 x\<rfloor> + 1)" by linarith
  then show "x < 2 powi (\<lfloor>log 2 x\<rfloor> + 1)" by (simp only: log2_less_iff[OF assms])
qed

lemma floor_log2_eq:
  assumes "2 powi e \<le> \<bar>x\<bar>" "\<bar>x\<bar> < 2 powi (e + 1)"
  shows "\<lfloor>log 2 \<bar>x\<bar>\<rfloor> = e"
proof -
  have "(0::real) < 2 powi e" by simp
  with assms(1) have pos: "0 < \<bar>x\<bar>" by linarith
  from assms(1) have a: "of_int e \<le> log 2 \<bar>x\<bar>" by (simp only: le_log2_iff[OF pos])
  from assms(2) have b: "log 2 \<bar>x\<bar> < of_int (e + 1)" by (simp only: log2_less_iff[OF pos])
  from a b show ?thesis by (simp add: floor_eq_iff)
qed

lemma round_double_eval:
  assumes "2 powi e \<le> \<bar>x\<bar>" "\<bar>x\<bar> < 2 powi (e + 1)"
  shows "round_double x = of_int (rne (x * 2 powi (52 - e))) * 2 powi (e - 52)"
proof -
  have "(0::real) < 2 powi e" by simp
  with assms(1) have "0 < \<bar>x\<bar>" by linarith
  then have "x \<noteq> 0" by simp
  then show ?thesis by (simp add: round_double_def Let_def floor_log2_eq[OF assms])
qed

lemma pow2_shift: "(2::real) ^ n * 2 powi (e - int n) = 2 powi e"
proof -
  have "(2::real) powi (int n + (e - int n)) = 2 powi (int n) * 2 powi (e - int n)"
    by (rule power_int_add) simp
  then show ?thesis by simp
qed

lemma round_double_binade:
  assumes "0 < x"
  shows "2 powi \<lfloor>log 2 x\<rfloor> \<le> round_double x" "round_double x \<le> 2 powi (\<lfloor>log 2 x\<rfloor> + 1)"
proof -
  let ?e = "\<lfloor>log 2 x\<rfloor>"
  let ?y = "x * 2 powi (52 - ?e)"
  from assms have nz: "x \<noteq> 0" and ab: "\<bar>x\<bar> = x" by simp_all
  note b = binade[OF assms]
  have rd: "round_double x = of_int (rne ?y) * 2 powi (?e - 52)"
    using nz ab by (simp add: round_double_def Let_def)
  have sc: "(0::real) < 2 powi (52 - ?e)" by simp
  have e1: "(2::real) powi ?e * 2 powi (52 - ?e) = 2 ^ 52"
    using power_int_add[of "2::real" ?e "52 - ?e"] by simp
  have e2: "(2::real) powi (?e + 1) * 2 powi (52 - ?e) = 2 ^ 53"
    using power_int_add[of "2::real" "?e + 1" "52 - ?e"] by simp
  have "2 powi ?e * 2 powi (52 - ?e) \<le> ?y" using b(1) sc by (simp only: mult_right_mono less_imp_le)
  then have lo: "real_of_int (2 ^ 52) \<le> ?y" by (simp only: e1) simp
  have "?y \<le> 2 powi (?e + 1) * 2 powi (52 - ?e)"
    using b(2) sc by (simp only: mult_right_mono less_imp_le)
  then have hi: "?y \<le> real_of_int (2 ^ 53)" by (simp only: e2) simp
  from rne_ge[OF lo] have "real_of_int (2 ^ 52) \<le> of_int (rne ?y)" by (simp only: of_int_le_iff)
  then have "(2::real) ^ 52 \<le> of_int (rne ?y)" by simp
  then have "(2::real) ^ 52 * 2 powi (?e - 52) \<le> of_int (rne ?y) * 2 powi (?e - 52)"
    by (simp add: mult_right_mono)
  moreover have "(2::real) ^ 52 * 2 powi (?e - 52) = 2 powi ?e"
    using pow2_shift[of 52 ?e] by simp
  ultimately show "2 powi ?e \<le> round_double x" by (simp only: rd)
  from rne_le[OF hi] have "real_of_int (rne ?y) \<le> of_int (2 ^ 53)" by (simp only: of_int_le_iff)
  then have "of_int (rne ?y) \<le> (2::real) ^ 53" by simp
  then have "of_int (rne ?y) * 2 powi (?e - 52) \<le> (2::real) ^ 53 * 2 powi (?e - 52)"
    by (simp add: mult_right_mono)
  moreover have "(2::real) ^ 53 * 2 powi (?e - 52) = 2 powi (?e + 1)"
    using pow2_shift[of 53 "?e + 1"] by simp
  ultimately show "round_double x \<le> 2 powi (?e + 1)" by (simp only: rd)
qed

lemma round_double_pos: "0 < x \<Longrightarrow> 0 < round_double x"
proof -
  assume "0 < x"
  from round_double_binade(1)[OF this] have "2 powi \<lfloor>log 2 x\<rfloor> \<le> round_double x" .
  moreover have "(0::real) < 2 powi \<lfloor>log 2 x\<rfloor>" by simp
  ultimately show ?thesis by linarith
qed

lemma round_double_ge_1: "1 \<le> x \<Longrightarrow> 1 \<le> round_double x"
proof -
  assume x: "1 \<le> x"
  then have "0 \<le> log 2 x" by simp
  then have "0 \<le> \<lfloor>log 2 x\<rfloor>" by simp
  then have "(1::real) \<le> 2 powi \<lfloor>log 2 x\<rfloor>" by (simp add: one_le_power_int)
  with round_double_binade(1)[of x] x show ?thesis by linarith
qed

lemma pow2_nonpos_le_1: "n \<le> 0 \<Longrightarrow> (2::real) powi n \<le> 1"
proof -
  assume "n \<le> 0"
  then have "(1::real) \<le> 2 powi (- n)" by (simp add: one_le_power_int)
  then have "inverse ((2::real) powi (- n)) \<le> 1" by (simp add: inverse_le_1_iff)
  then show ?thesis by (simp add: power_int_minus)
qed

lemma round_double_le_1: "0 \<le> x \<Longrightarrow> x \<le> 1 \<Longrightarrow> round_double x \<le> 1"
proof -
  assume x: "0 \<le> x" "x \<le> 1"
  consider "x = 0" | "x = 1" | "0 < x" "x < 1" using x by linarith
  then show ?thesis
  proof cases
    case 1
    then show ?thesis by (simp add: round_double_0)
  next
    case 2
    have "round_double 1 = of_int (rne (1 * 2 powi (52 - 0))) * 2 powi (0 - 52)"
      by (rule round_double_eval) simp_all
    then show ?thesis using 2 by (simp add: rne_def power_int_minus)
  next
    case 3
    have "\<lfloor>log 2 x\<rfloor> < 0"
    proof (rule ccontr)
      assume "\<not> \<lfloor>log 2 x\<rfloor> < 0"
      then have "(1::real) \<le> 2 powi \<lfloor>log 2 x\<rfloor>" by (simp add: one_le_power_int)
      with binade(1)[OF 3(1)] 3(2) show False by linarith
    qed
    then have "\<lfloor>log 2 x\<rfloor> + 1 \<le> 0" by linarith
    then have "(2::real) powi (\<lfloor>log 2 x\<rfloor> + 1) \<le> 1"
      by (rule pow2_nonpos_le_1)
    with round_double_binade(2)[OF 3(1)] show ?thesis by linarith
  qed
qed


lemma round_double_neg_exp:
  assumes "1 / 2 ^ k \<le> \<bar>x\<bar>" "\<bar>x\<bar> < 2 / 2 ^ k"
  shows "round_double x = of_int (rne (x * 2 ^ (52 + k))) / 2 ^ (52 + k)"
proof -
  have a: "(2::real) powi (- int k) = 1 / 2 ^ k"
    by (simp add: power_int_minus divide_inverse)
  have "(2::real) powi (1 + (- int k)) = 2 powi 1 * 2 powi (- int k)"
    by (rule power_int_add) simp
  then have b: "(2::real) powi (- int k + 1) = 2 / 2 ^ k"
    by (simp add: a add.commute)
  have c: "(2::real) powi (52 - (- int k)) = 2 ^ (52 + k)"
    using power_int_of_nat[of "2::real" "52 + k"] by (simp del: power_int_of_nat)
  have "(2::real) powi (- int (52 + k)) = 1 / 2 ^ (52 + k)"
    by (simp only: power_int_minus power_int_of_nat divide_inverse mult_1)
  then have d: "(2::real) powi (- int k - 52) = 1 / 2 ^ (52 + k)"
    by (simp add: algebra_simps)
  from assms have "2 powi (- int k) \<le> \<bar>x\<bar>" "\<bar>x\<bar> < 2 powi (- int k + 1)"
    by (simp_all only: a b)
  from round_double_eval[OF this] show ?thesis by (simp only: c d) simp
qed

lemma round_double_pos_exp:
  assumes "k \<le> 52" "2 ^ k \<le> \<bar>x\<bar>" "\<bar>x\<bar> < 2 * 2 ^ k"
  shows "round_double x = of_int (rne (x * 2 ^ (52 - k))) / 2 ^ (52 - k)"
proof -
  have a: "(2::real) powi (int k) = 2 ^ k" by simp
  have "(2::real) powi (1 + int k) = 2 powi 1 * 2 powi (int k)"
    by (rule power_int_add) simp
  then have b: "(2::real) powi (int k + 1) = 2 * 2 ^ k" by (simp add: add.commute)
  have c: "(2::real) powi (52 - int k) = 2 ^ (52 - k)"
    using assms(1) power_int_of_nat[of "2::real" "52 - k"]
    by (simp del: power_int_of_nat add: of_nat_diff)
  have "(2::real) powi (- int (52 - k)) = 1 / 2 ^ (52 - k)"
    by (simp only: power_int_minus power_int_of_nat divide_inverse mult_1)
  then have d: "(2::real) powi (int k - 52) = 1 / 2 ^ (52 - k)"
    using assms(1) by (simp add: of_nat_diff algebra_simps)
  from assms have "2 powi (int k) \<le> \<bar>x\<bar>" "\<bar>x\<bar> < 2 powi (int k + 1)"
    by (simp_all only: a b)
  from round_double_eval[OF this] show ?thesis by (simp only: c d) simp
qed

lemma round_double_of_nat:
  assumes "n < 2 ^ 53"
  shows "round_double (of_nat n) = of_nat n"
proof (cases "n = 0")
  case True
  then show ?thesis by (simp add: round_double_0)
next
  case False
  let ?x = "real n"
  let ?e = "\<lfloor>log 2 ?x\<rfloor>"
  from False have pos: "0 < ?x" and one: "1 \<le> ?x" by simp_all
  note b = binade[OF pos]
  have e0: "0 \<le> ?e" using one by simp
  have "?x < 2 ^ 53" using assms by (metis of_nat_less_iff of_nat_numeral of_nat_power)
  with b(1) have "(2::real) powi ?e < 2 powi 53" by simp
  moreover have "?e < 53"
  proof (rule ccontr)
    assume "\<not> ?e < 53"
    then have "53 \<le> ?e" by simp
    then have "(2::real) powi 53 \<le> 2 powi ?e" by (rule power_int_increasing) simp
    with \<open>(2::real) powi ?e < 2 powi 53\<close> show False by linarith
  qed
  ultimately obtain k where k: "52 - ?e = int k" using nonneg_int_cases[of "52 - ?e"] by auto
  have sc: "(2::real) powi (52 - ?e) = of_nat (2 ^ k)" by (simp add: k)
  have "?x * 2 powi (52 - ?e) = of_int (int (n * 2 ^ k))" by (simp add: sc)
  then have "rne (?x * 2 powi (52 - ?e)) = int (n * 2 ^ k)" by (simp only: rne_of_int)
  moreover have "(2::real) ^ k * 2 powi (?e - 52) = 1"
  proof -
    have ek: "?e - 52 = - int k" using k by linarith
    show ?thesis unfolding ek by (simp add: power_int_minus)
  qed
  ultimately have "of_int (rne (?x * 2 powi (52 - ?e))) * 2 powi (?e - 52) = ?x"
    by (simp add: mult.assoc)
  moreover have "\<bar>?x\<bar> = ?x" by simp
  ultimately show ?thesis using False by (simp add: round_double_def Let_def)
qed

lemma float_of_int_channel: "0 \<le> c \<Longrightarrow> c \<le> 255 \<Longrightarrow> float_of_int c = of_int c"
proof -
  assume c: "0 \<le> c" "c \<le> 255"
  then have "nat c < 2 ^ 53" by simp
  from round_double_of_nat[OF this] c(1) show ?thesis by (simp add: float_of_int_def)
qed

lemma channel_unit:
  assumes "0 \<le> c" "c \<le> 255"
  shows "0 \<le> fdiv (float_of_int c) 255" "fdiv (float_of_int c) 255 \<le> 1"
proof -
  let ?q = "real_of_int c / 255"
  have fd: "fdiv (float_of_int c) 255 = round_double ?q"
    by (simp add: fdiv_def float_of_int_channel[OF assms])
  from assms have q: "0 \<le> ?q" "?q \<le> 1" by simp_all
  show "0 \<le> fdiv (float_of_int c) 255"
  proof (cases "?q = 0")
    case True
    then show ?thesis by (simp only: fd round_double_0)
  next
    case False
    with q(1) have "0 < ?q" by linarith
    from round_double_pos[OF this] show ?thesis by (simp only: fd)
  qed
  from round_double_le_1[OF q] show "fdiv (float_of_int c) 255 \<le> 1" by (simp only: fd)
qed

text \<open>
  The values of the roundings that occur in the conversion of the colours used below, each
  computed from the definition of \<open>round_double\<close>.
\<close>

lemma round_double_1: "round_double (230) = 230"
  by (subst round_double_pos_exp[of 7]) (simp_all add: rne_def Let_def)

lemma round_double_2: "round_double (46 / 51) = 8124140504276189 / 9007199254740992"
  by (subst round_double_neg_exp[of 1]) (simp_all add: rne_def Let_def)

lemma round_double_3: "round_double (20) = 20"
  by (subst round_double_pos_exp[of 4]) (simp_all add: rne_def Let_def)

lemma round_double_4: "round_double (4 / 51) = 1412894000743685 / 18014398509481984"
  by (subst round_double_neg_exp[of 4]) (simp_all add: rne_def Let_def)

lemma round_double_5: "round_double (14835387007808693 / 18014398509481984) = 3708846751952173 / 4503599627370496"
  by (subst round_double_neg_exp[of 1]) (simp_all add: rne_def Let_def)

lemma round_double_6: "round_double (17661175009296063 / 18014398509481984) = 275955859520251 / 281474976710656"
  by (subst round_double_neg_exp[of 1]) (simp_all add: rne_def Let_def)

lemma round_double_7: "round_double (275955859520251 / 562949953421312) = 275955859520251 / 562949953421312"
  by (subst round_double_neg_exp[of 2]) (simp_all add: rne_def Let_def)

lemma round_double_8: "round_double (3708846751952173 / 4415293752324016) = 236438980436951 / 281474976710656"
  by (subst round_double_neg_exp[of 1]) (simp_all add: rne_def Let_def)

lemma round_double_9: "round_double (5910974510923775 / 70368744177664) = 5910974510923775 / 70368744177664"
  by (subst round_double_pos_exp[of 6]) (simp_all add: rne_def Let_def)

lemma round_double_10: "round_double (6898896488006275 / 140737488355328) = 6898896488006275 / 140737488355328"
  by (subst round_double_pos_exp[of 5]) (simp_all add: rne_def Let_def)

lemma round_double_11: "round_double (128) = 128"
  by (subst round_double_pos_exp[of 7]) (simp_all add: rne_def Let_def)

lemma round_double_12: "round_double (128 / 255) = 282578800148737 / 562949953421312"
  by (subst round_double_neg_exp[of 1]) (simp_all add: rne_def Let_def)

lemma round_double_13: "round_double (282578800148737 / 281474976710656) = 282578800148737 / 281474976710656"
  by (subst round_double_pos_exp[of 0]) (simp_all add: rne_def Let_def)

lemma round_double_14: "round_double (282578800148737 / 562949953421312) = 282578800148737 / 562949953421312"
  by (subst round_double_neg_exp[of 1]) (simp_all add: rne_def Let_def)

lemma round_double_15: "round_double (7064470003718425 / 140737488355328) = 7064470003718425 / 140737488355328"
  by (subst round_double_pos_exp[of 5]) (simp_all add: rne_def Let_def)

lemma round_double_16: "round_double (195) = 195"
  by (subst round_double_pos_exp[of 7]) (simp_all add: rne_def Let_def)

lemma round_double_17: "round_double (13 / 17) = 860982281703183 / 1125899906842624"
  by (subst round_double_neg_exp[of 1]) (simp_all add: rne_def Let_def)

lemma round_double_18: "round_double (183) = 183"
  by (subst round_double_pos_exp[of 7]) (simp_all add: rne_def Let_def)

lemma round_double_19: "round_double (61 / 85) = 6463990053402359 / 9007199254740992"
  by (subst round_double_neg_exp[of 1]) (simp_all add: rne_def Let_def)

lemma round_double_20: "round_double (423868200223105 / 9007199254740992) = 423868200223105 / 9007199254740992"
  by (subst round_double_neg_exp[of 5]) (simp_all add: rne_def Let_def)

lemma round_double_21: "round_double (13351848307027823 / 9007199254740992) = 834490519189239 / 562949953421312"
  by (subst round_double_pos_exp[of 0]) (simp_all add: rne_def Let_def)

lemma round_double_22: "round_double (834490519189239 / 1125899906842624) = 834490519189239 / 1125899906842624"
  by (subst round_double_neg_exp[of 1]) (simp_all add: rne_def Let_def)

lemma round_double_23: "round_double (1390817531982065 / 1125899906842624) = 1390817531982065 / 1125899906842624"
  by (subst round_double_pos_exp[of 0]) (simp_all add: rne_def Let_def)

lemma round_double_24: "round_double (4662550202454161 / 9007199254740992) = 4662550202454161 / 9007199254740992"
  by (subst round_double_neg_exp[of 1]) (simp_all add: rne_def Let_def)

lemma round_double_25: "round_double (423868200223105 / 4662550202454161) = 6550690367084349 / 72057594037927936"
  by (subst round_double_neg_exp[of 4]) (simp_all add: rne_def Let_def)

lemma round_double_26: "round_double (163767259177108725 / 18014398509481984) = 639715856160581 / 70368744177664"
  by (subst round_double_pos_exp[of 3]) (simp_all add: rne_def Let_def)

lemma round_double_27: "round_double (20862262979730975 / 281474976710656) = 651945718116593 / 8796093022208"
  by (subst round_double_pos_exp[of 6]) (simp_all add: rne_def Let_def)

lemma round_double_28: "round_double (42) = 42"
  by (subst round_double_pos_exp[of 5]) (simp_all add: rne_def Let_def)

lemma round_double_29: "round_double (14 / 85) = 5934154803123477 / 36028797018963968"
  by (subst round_double_neg_exp[of 3]) (simp_all add: rne_def Let_def)

lemma round_double_30: "round_double (35) = 35"
  by (subst round_double_pos_exp[of 5]) (simp_all add: rne_def Let_def)

lemma round_double_31: "round_double (7 / 51) = 2472564501301449 / 18014398509481984"
  by (subst round_double_neg_exp[of 3]) (simp_all add: rne_def Let_def)

lemma round_double_32: "round_double (989025800520579 / 36028797018963968) = 989025800520579 / 36028797018963968"
  by (subst round_double_neg_exp[of 6]) (simp_all add: rne_def Let_def)

lemma round_double_33: "round_double (10879283805726375 / 36028797018963968) = 1359910475715797 / 4503599627370496"
  by (subst round_double_neg_exp[of 2]) (simp_all add: rne_def Let_def)

lemma round_double_34: "round_double (1359910475715797 / 9007199254740992) = 1359910475715797 / 9007199254740992"
  by (subst round_double_neg_exp[of 3]) (simp_all add: rne_def Let_def)

lemma round_double_35: "round_double (989025800520579 / 10879283805726376) = 3275345183542177 / 36028797018963968"
  by (subst round_double_neg_exp[of 4]) (simp_all add: rne_def Let_def)

lemma round_double_36: "round_double (81883629588554425 / 9007199254740992) = 1279431712321163 / 140737488355328"
  by (subst round_double_pos_exp[of 3]) (simp_all add: rne_def Let_def)

lemma round_double_37: "round_double (33997761892894925 / 2251799813685248) = 8499440473223731 / 562949953421312"
  by (subst round_double_pos_exp[of 3]) (simp_all add: rne_def Let_def)

lemma round_double_38: "round_double (150) = 150"
  by (subst round_double_pos_exp[of 7]) (simp_all add: rne_def Let_def)

lemma round_double_39: "round_double (10 / 17) = 5298352502788819 / 9007199254740992"
  by (subst round_double_neg_exp[of 1]) (simp_all add: rne_def Let_def)

lemma round_double_40: "round_double (100) = 100"
  by (subst round_double_pos_exp[of 6]) (simp_all add: rne_def Let_def)

lemma round_double_41: "round_double (20 / 51) = 7064470003718425 / 18014398509481984"
  by (subst round_double_neg_exp[of 2]) (simp_all add: rne_def Let_def)

lemma round_double_42: "round_double (60) = 60"
  by (subst round_double_pos_exp[of 5]) (simp_all add: rne_def Let_def)

lemma round_double_43: "round_double (4 / 17) = 4238682002231055 / 18014398509481984"
  by (subst round_double_neg_exp[of 3]) (simp_all add: rne_def Let_def)

lemma round_double_44: "round_double (6358023003346583 / 18014398509481984) = 6358023003346583 / 18014398509481984"
  by (subst round_double_neg_exp[of 2]) (simp_all add: rne_def Let_def)

lemma round_double_45: "round_double (3708846751952173 / 9007199254740992) = 3708846751952173 / 9007199254740992"
  by (subst round_double_neg_exp[of 2]) (simp_all add: rne_def Let_def)

lemma round_double_46: "round_double (6358023003346583 / 14835387007808692) = 1930114126015927 / 4503599627370496"
  by (subst round_double_neg_exp[of 2]) (simp_all add: rne_def Let_def)

lemma round_double_47: "round_double (1412894000743685 / 9007199254740992) = 1412894000743685 / 9007199254740992"
  by (subst round_double_neg_exp[of 3]) (simp_all add: rne_def Let_def)

lemma round_double_48: "round_double (2825788001487370 / 6358023003346583) = 2001599834386887 / 4503599627370496"
  by (subst round_double_neg_exp[of 2]) (simp_all add: rne_def Let_def)

lemma round_double_49: "round_double (30023997515803305 / 1125899906842624) = 3752999689475413 / 140737488355328"
  by (subst round_double_pos_exp[of 4]) (simp_all add: rne_def Let_def)

lemma round_double_50: "round_double (48252853150398175 / 1125899906842624) = 1507901660949943 / 35184372088832"
  by (subst round_double_pos_exp[of 5]) (simp_all add: rne_def Let_def)

lemma round_double_51: "round_double (92721168798804325 / 2251799813685248) = 2897536524962635 / 70368744177664"
  by (subst round_double_pos_exp[of 5]) (simp_all add: rne_def Let_def)

lemma round_double_52: "round_double (160) = 160"
  by (subst round_double_pos_exp[of 7]) (simp_all add: rne_def Let_def)

lemma round_double_53: "round_double (32 / 51) = 1412894000743685 / 2251799813685248"
  by (subst round_double_neg_exp[of 1]) (simp_all add: rne_def Let_def)

lemma round_double_54: "round_double (110) = 110"
  by (subst round_double_pos_exp[of 6]) (simp_all add: rne_def Let_def)

lemma round_double_55: "round_double (22 / 51) = 1942729251022567 / 4503599627370496"
  by (subst round_double_neg_exp[of 2]) (simp_all add: rne_def Let_def)

lemma round_double_56: "round_double (70) = 70"
  by (subst round_double_pos_exp[of 6]) (simp_all add: rne_def Let_def)

lemma round_double_57: "round_double (14 / 51) = 2472564501301449 / 9007199254740992"
  by (subst round_double_neg_exp[of 2]) (simp_all add: rne_def Let_def)

lemma round_double_58: "round_double (3179011501673291 / 9007199254740992) = 3179011501673291 / 9007199254740992"
  by (subst round_double_neg_exp[of 2]) (simp_all add: rne_def Let_def)

lemma round_double_59: "round_double (8124140504276189 / 9007199254740992) = 8124140504276189 / 9007199254740992"
  by (subst round_double_neg_exp[of 1]) (simp_all add: rne_def Let_def)

lemma round_double_60: "round_double (8124140504276189 / 18014398509481984) = 8124140504276189 / 18014398509481984"
  by (subst round_double_neg_exp[of 2]) (simp_all add: rne_def Let_def)

lemma round_double_61: "round_double (3179011501673291 / 8124140504276189) = 440569528764505 / 1125899906842624"
  by (subst round_double_neg_exp[of 2]) (simp_all add: rne_def Let_def)

lemma round_double_62: "round_double (1412894000743685 / 3179011501673291) = 8006399337547549 / 18014398509481984"
  by (subst round_double_neg_exp[of 2]) (simp_all add: rne_def Let_def)

lemma round_double_63: "round_double (120095990063213235 / 4503599627370496) = 7505999378950827 / 281474976710656"
  by (subst round_double_pos_exp[of 4]) (simp_all add: rne_def Let_def)

lemma round_double_64: "round_double (11014238219112625 / 281474976710656) = 688389888694539 / 17592186044416"
  by (subst round_double_pos_exp[of 5]) (simp_all add: rne_def Let_def)

lemma round_double_65: "round_double (203103512606904725 / 4503599627370496) = 6346984768965773 / 140737488355328"
  by (subst round_double_pos_exp[of 5]) (simp_all add: rne_def Let_def)

lemma round_double_66: "round_double (91) = 91"
  by (subst round_double_pos_exp[of 6]) (simp_all add: rne_def Let_def)

lemma round_double_67: "round_double (91 / 255) = 6428667703383767 / 18014398509481984"
  by (subst round_double_neg_exp[of 2]) (simp_all add: rne_def Let_def)

lemma round_double_68: "round_double (52) = 52"
  by (subst round_double_pos_exp[of 5]) (simp_all add: rne_def Let_def)

lemma round_double_69: "round_double (52 / 255) = 3673524401933581 / 18014398509481984"
  by (subst round_double_neg_exp[of 3]) (simp_all add: rne_def Let_def)

lemma round_double_70: "round_double (39) = 39"
  by (subst round_double_pos_exp[of 5]) (simp_all add: rne_def Let_def)

lemma round_double_71: "round_double (13 / 85) = 1377571650725093 / 9007199254740992"
  by (subst round_double_neg_exp[of 3]) (simp_all add: rne_def Let_def)

lemma round_double_72: "round_double (3673524401933581 / 18014398509481984) = 3673524401933581 / 18014398509481984"
  by (subst round_double_neg_exp[of 3]) (simp_all add: rne_def Let_def)

lemma round_double_73: "round_double (9183811004833953 / 18014398509481984) = 286994093901061 / 562949953421312"
  by (subst round_double_neg_exp[of 1]) (simp_all add: rne_def Let_def)

lemma round_double_74: "round_double (286994093901061 / 1125899906842624) = 286994093901061 / 1125899906842624"
  by (subst round_double_neg_exp[of 2]) (simp_all add: rne_def Let_def)

lemma round_double_75: "round_double (3673524401933581 / 9183811004833952) = 3602879701896397 / 9007199254740992"
  by (subst round_double_neg_exp[of 2]) (simp_all add: rne_def Let_def)

lemma round_double_76: "round_double (918381100483395 / 18014398509481984) = 918381100483395 / 18014398509481984"
  by (subst round_double_neg_exp[of 5]) (simp_all add: rne_def Let_def)

lemma round_double_77: "round_double (918381100483395 / 3673524401933581) = 4503599627370495 / 18014398509481984"
  by (subst round_double_neg_exp[of 3]) (simp_all add: rne_def Let_def)

lemma round_double_78: "round_double (67553994410557425 / 4503599627370496) = 4222124650659839 / 281474976710656"
  by (subst round_double_pos_exp[of 3]) (simp_all add: rne_def Let_def)

lemma round_double_79: "round_double (90071992547409925 / 2251799813685248) = 40"
  by (subst round_double_pos_exp[of 5]) (simp_all add: rne_def Let_def)

lemma round_double_80: "round_double (7174852347526525 / 281474976710656) = 7174852347526525 / 281474976710656"
  by (subst round_double_pos_exp[of 4]) (simp_all add: rne_def Let_def)

lemma round_double_81: "round_double (211) = 211"
  by (subst round_double_pos_exp[of 7]) (simp_all add: rne_def Let_def)

lemma round_double_82: "round_double (211 / 255) = 3726507926961469 / 4503599627370496"
  by (subst round_double_neg_exp[of 1]) (simp_all add: rne_def Let_def)

lemma round_double_83: "round_double (189) = 189"
  by (subst round_double_pos_exp[of 7]) (simp_all add: rne_def Let_def)

lemma round_double_84: "round_double (63 / 85) = 834490519189239 / 1125899906842624"
  by (subst round_double_neg_exp[of 1]) (simp_all add: rne_def Let_def)

lemma round_double_85: "round_double (388545850204513 / 4503599627370496) = 388545850204513 / 4503599627370496"
  by (subst round_double_neg_exp[of 4]) (simp_all add: rne_def Let_def)

lemma round_double_86: "round_double (7064470003718425 / 4503599627370496) = 7064470003718425 / 4503599627370496"
  by (subst round_double_pos_exp[of 0]) (simp_all add: rne_def Let_def)

lemma round_double_87: "round_double (7064470003718425 / 9007199254740992) = 7064470003718425 / 9007199254740992"
  by (subst round_double_neg_exp[of 1]) (simp_all add: rne_def Let_def)

lemma round_double_88: "round_double (5280691327779523 / 4503599627370496) = 5280691327779523 / 4503599627370496"
  by (subst round_double_pos_exp[of 0]) (simp_all add: rne_def Let_def)

lemma round_double_89: "round_double (1942729251022567 / 4503599627370496) = 1942729251022567 / 4503599627370496"
  by (subst round_double_neg_exp[of 2]) (simp_all add: rne_def Let_def)

lemma round_double_90: "round_double (388545850204513 / 1942729251022567) = 3602879701896393 / 18014398509481984"
  by (subst round_double_neg_exp[of 3]) (simp_all add: rne_def Let_def)

lemma round_double_91: "round_double (90071992547409825 / 4503599627370496) = 2814749767106557 / 140737488355328"
  by (subst round_double_pos_exp[of 4]) (simp_all add: rne_def Let_def)

lemma round_double_92: "round_double (176611750092960625 / 2251799813685248) = 1379779297601255 / 17592186044416"
  by (subst round_double_pos_exp[of 6]) (simp_all add: rne_def Let_def)

lemmas round_double_values =
  round_double_1 round_double_2 round_double_3 round_double_4 round_double_5 round_double_6
  round_double_7 round_double_8 round_double_9 round_double_10 round_double_11 round_double_12
  round_double_13 round_double_14 round_double_15 round_double_16 round_double_17 round_double_18
  round_double_19 round_double_20 round_double_21 round_double_22 round_double_23 round_double_24
  round_double_25 round_double_26 round_double_27 round_double_28 round_double_29 round_double_30
  round_double_31 round_double_32 round_double_33 round_double_34 round_double_35 round_double_36
  round_double_37 round_double_38 round_double_39 round_double_40 round_double_41 round_double_42
  round_double_43 round_double_44 round_double_45 round_double_46 round_double_47 round_double_48
  round_double_49 round_double_50 round_double_51 round_double_52 round_double_53 round_double_54
  round_double_55 round_double_56 round_double_57 round_double_58 round_double_59 round_double_60
  round_double_61 round_double_62 round_double_63 round_double_64 round_double_65 round_double_66
  round_double_67 round_double_68 round_double_69 round_double_70 round_double_71 round_double_72
  round_double_73 round_double_74 round_double_75 round_double_76 round_double_77 round_double_78
  round_double_79 round_double_80 round_double_81 round_double_82 round_double_83 round_double_84
  round_double_85 round_double_86 round_double_87 round_double_88 round_double_89 round_double_90
  round_double_91 round_double_92

section \<open>Properties of the colour filter\<close>

text \<open>
  The conversion of the colours used below: hue, saturation and lightness as the doubles
  that \<open>rgb_to_hsl\<close> returns.
\<close>

lemma hsl_230_20_20:
  "hsl_of (230, 20, 20) = Inr (0, 5910974510923775 / 70368744177664, 6898896488006275 / 140737488355328)"
  by (simp add: hsl_of_def rgb_to_hsl_def float_ops Let_def round_double_0 round_double_values)

lemma hsl_128_128_128:
  "hsl_of (128, 128, 128) = Inr (0, 0, 7064470003718425 / 140737488355328)"
  by (simp add: hsl_of_def rgb_to_hsl_def float_ops Let_def round_double_0 round_double_values)

lemma hsl_195_183_183:
  "hsl_of (195, 183, 183) = Inr (0, 639715856160581 / 70368744177664, 651945718116593 / 8796093022208)"
  by (simp add: hsl_of_def rgb_to_hsl_def float_ops Let_def round_double_0 round_double_values)

lemma hsl_42_35_35:
  "hsl_of (42, 35, 35) = Inr (0, 1279431712321163 / 140737488355328, 8499440473223731 / 562949953421312)"
  by (simp add: hsl_of_def rgb_to_hsl_def float_ops Let_def round_double_0 round_double_values)

lemma hsl_150_100_60:
  "hsl_of (150, 100, 60) = Inr (3752999689475413 / 140737488355328, 1507901660949943 / 35184372088832, 2897536524962635 / 70368744177664)"
  by (simp add: hsl_of_def rgb_to_hsl_def float_ops Let_def round_double_0 round_double_values)

lemma hsl_160_110_70:
  "hsl_of (160, 110, 70) = Inr (7505999378950827 / 281474976710656, 688389888694539 / 17592186044416, 6346984768965773 / 140737488355328)"
  by (simp add: hsl_of_def rgb_to_hsl_def float_ops Let_def round_double_0 round_double_values)

lemma hsl_91_52_39:
  "hsl_of (91, 52, 39) = Inr (4222124650659839 / 281474976710656, 40, 7174852347526525 / 281474976710656)"
  by (simp add: hsl_of_def rgb_to_hsl_def float_ops Let_def round_double_0 round_double_values)

lemma hsl_211_189_189:
  "hsl_of (211, 189, 189) = Inr (0, 2814749767106557 / 140737488355328, 1379779297601255 / 17592186044416)"
  by (simp add: hsl_of_def rgb_to_hsl_def float_ops Let_def round_double_0 round_double_values)

lemma rgb_to_hsl_valid:
  assumes "valid_color (r, g, b)"
  shows "\<not> isl (rgb_to_hsl r g b)"
proof -
  let ?r = "fdiv (float_of_int r) 255" and ?g = "fdiv (float_of_int g) 255"
    and ?b = "fdiv (float_of_int b) 255"
  let ?mx = "max ?r (max ?g ?b)" and ?mn = "min ?r (min ?g ?b)"
  from assms have c: "0 \<le> r" "r \<le> 255" "0 \<le> g" "g \<le> 255" "0 \<le> b" "b \<le> 255"
    by (simp_all add: valid_color_def)
  note u = channel_unit[OF c(1,2)] channel_unit[OF c(3,4)] channel_unit[OF c(5,6)]
  from u have mx: "?mx \<le> 1" and mn: "0 \<le> ?mn" by simp_all
  show ?thesis
  proof (cases "fsub ?mx ?mn = 0")
    case True
    then show ?thesis by (simp add: rgb_to_hsl_def Let_def)
  next
    case False
    have "?mx \<noteq> ?mn"
    proof
      assume "?mx = ?mn"
      then have "fsub ?mx ?mn = 0" by (simp add: fsub_def round_double_0)
      with False show False by simp
    qed
    moreover have "?mn \<le> ?mx" by simp
    ultimately have lt: "?mn < ?mx" by linarith
    have "1 \<le> 2 - ?mx" using mx by simp
    then have "1 \<le> fsub 2 ?mx" unfolding fsub_def by (rule round_double_ge_1)
    with lt mx have "0 < fsub 2 ?mx - ?mn" by linarith
    then have "0 < fsub (fsub 2 ?mx) ?mn" unfolding fsub_def[of "fsub 2 ?mx"] by (rule round_double_pos)
    then have d1: "fsub (fsub 2 ?mx) ?mn \<noteq> 0" by simp
    from lt mn have "0 < ?mx + ?mn" by linarith
    then have "0 < fadd ?mx ?mn" unfolding fadd_def by (rule round_double_pos)
    then have d2: "fadd ?mx ?mn \<noteq> 0" by simp
    from False d1 d2 show ?thesis by (simp add: rgb_to_hsl_def Let_def)
  qed
qed

lemma hsl_of_valid: "valid_color c \<Longrightarrow> \<not> isl (hsl_of c)"
  by (cases c) (simp add: hsl_of_def rgb_to_hsl_valid)

lemma hsl_of_pure_gray: "\<exists>l. hsl_of (v, v, v) = Inr (0, 0, l)"
  by (simp add: hsl_of_def rgb_to_hsl_def Let_def fsub_def round_double_0)

lemma filter_loop_survivors:
  "\<forall>c \<in> set colors. \<not> isl (hsl_of c) \<Longrightarrow>
     filter_loop mb filtered bc colors = Inr (filtered @ survivors mb bc colors)"
proof (induction colors arbitrary: filtered bc)
  case Nil
  show ?case by simp
next
  case (Cons c cs)
  then have "\<not> isl (hsl_of c)" by simp
  then obtain h s l where t: "hsl_of c = Inr (h, s, l)"
    by (cases "hsl_of c") (auto intro: prod_cases3)
  from Cons.prems have rest: "\<forall>c \<in> set cs. \<not> isl (hsl_of c)" by simp
  note IH = Cons.IH[OF rest]
  show ?case
    by (simp add: t IH rejected_by_rules_def is_brown_def)
qed

lemma filter_loop_Inr:
  "filter_loop mb filtered bc colors = Inr out \<Longrightarrow> \<forall>c \<in> set colors. \<not> isl (hsl_of c)"
proof (induction colors arbitrary: filtered bc)
  case Nil
  show ?case by simp
next
  case (Cons c cs)
  from Cons.prems obtain t where t: "hsl_of c = Inr t"
    by (cases "hsl_of c") auto
  obtain h s l where hsl: "t = (h, s, l)" by (cases t) auto
  from Cons.prems t hsl have "\<exists>f' bc'. filter_loop mb f' bc' cs = Inr out"
    by (auto split: if_splits)
  then obtain f' bc' where "filter_loop mb f' bc' cs = Inr out" by blast
  then have "\<forall>c \<in> set cs. \<not> isl (hsl_of c)" by (rule Cons.IH)
  with t show ?case by simp
qed

lemma saturation_keys_eq:
  "\<forall>c \<in> set colors. \<not> isl (hsl_of c) \<Longrightarrow> saturation_keys colors = Inr (map saturation colors)"
proof (induction colors)
  case Nil
  show ?case by simp
next
  case (Cons c cs)
  then have "\<not> isl (hsl_of c)" by simp
  then obtain h s l where t: "hsl_of c = Inr (h, s, l)"
    by (cases "hsl_of c") (auto intro: prod_cases3)
  with Cons show ?case by (simp add: saturation_def)
qed

lemma sorted_by_saturation_eq:
  assumes "\<forall>c \<in> set colors. \<not> isl (hsl_of c)"
  shows "sorted_by_saturation colors = Inr (sort_key (\<lambda>c. - saturation c) colors)"
proof -
  have "zip (map saturation colors) colors = map (\<lambda>c. (saturation c, c)) colors"
    by (induction colors) simp_all
  then have "map snd (sort_key (\<lambda>p. - fst p) (zip (map saturation colors) colors))
             = sort_key (\<lambda>c. - saturation c) colors"
    by (simp add: sort_key_map comp_def)
  then show ?thesis
    by (simp add: sorted_by_saturation_def saturation_keys_eq[OF assms])
qed

lemma survivors_subset: "set (survivors mb bc colors) \<subseteq> {c \<in> set colors. \<not> rejected_by_rules c}"
  by (induction colors arbitrary: bc) auto

lemma survivors_keeps_other:
  "c \<in> set colors \<Longrightarrow> \<not> rejected_by_rules c \<Longrightarrow> \<not> is_brown c \<Longrightarrow> c \<in> set (survivors mb bc colors)"
  by (induction colors arbitrary: bc) auto

lemma survivors_browns:
  "filter is_brown (survivors mb bc colors)
     = take (nat (mb - bc)) (filter (\<lambda>c. \<not> rejected_by_rules c \<and> is_brown c) colors)"
proof (induction colors arbitrary: bc)
  case Nil
  show ?case by simp
next
  case (Cons c cs)
  show ?case
  proof (cases "\<not> rejected_by_rules c \<and> is_brown c")
    case False
    then show ?thesis by (auto simp: Cons.IH)
  next
    case True
    show ?thesis
    proof (cases "bc \<ge> mb")
      case True
      with \<open>\<not> rejected_by_rules c \<and> is_brown c\<close> show ?thesis by (simp add: Cons.IH)
    next
      case False
      then obtain k where k: "nat (mb - bc) = Suc k" "nat (mb - (bc + 1)) = k"
        by (metis Suc_nat_eq_nat_zadd1 add.commute diff_diff_eq diff_ge_0_iff_ge less_eq_int_code(1) linorder_not_le nat_0_iff nat_diff_distrib not0_implies_Suc zless_nat_conj add_diff_cancel_left' diff_add_cancel zle_diff1_eq)
      with False \<open>\<not> rejected_by_rules c \<and> is_brown c\<close> show ?thesis by (simp add: Cons.IH)
    qed
  qed
qed

lemma survivors_others:
  "filter (\<lambda>c. \<not> is_brown c) (survivors mb bc colors)
     = filter (\<lambda>c. \<not> rejected_by_rules c \<and> \<not> is_brown c) colors"
  by (induction colors arbitrary: bc) auto

lemma low_saturation_rejected:
  "\<not> isl (hsl_of c) \<Longrightarrow> saturation c < 20 \<Longrightarrow> rejected_by_rules c"
  by (cases "hsl_of c") (auto simp: saturation_def rejected_by_rules_def)

lemma survivors_all_rejected:
  "\<forall>c \<in> set colors. rejected_by_rules c \<Longrightarrow> survivors mb bc colors = []"
  by (induction colors) simp_all

lemma sort_key_descending:
  assumes "i < j" "j < length xs"
  shows "f (sort_key (\<lambda>c. - f c) xs ! j) \<le> (f (sort_key (\<lambda>c. - f c) xs ! i) :: real)"
proof -
  have "sorted (map (\<lambda>c. - f c) (sort_key (\<lambda>c. - f c) xs))" by (rule sorted_sort_key)
  with assms have "- f (sort_key (\<lambda>c. - f c) xs ! i) \<le> - f (sort_key (\<lambda>c. - f c) xs ! j)"
    by (auto simp: sorted_iff_nth_mono_less dest!: spec[of _ i] spec[of _ j])
  then show ?thesis by simp
qed

text \<open>
  Claim C3. When the loop rejects every candidate of a non-empty list of colours with
  channels in \<open>[0, 255]\<close> (as it does when every colour has a saturation below 20), \<open>filter_colors\<close> raises no error and
  returns all the candidates, stably sorted by descending saturation: a non-empty list of
  the length of the input.
\<close>

theorem filter_colors_fallback:
  assumes "colors \<noteq> []" and "\<forall>c \<in> set colors. valid_color c"
    and "filter_loop max_browns [] 0 colors = Inr []
         \<or> (\<forall>c \<in> set colors. saturation c < 20)"
  shows "filter_colors colors max_browns = Inr (sort_key (\<lambda>c. - saturation c) colors)
       \<and> (\<exists>out. filter_colors colors max_browns = Inr out
             \<and> out \<noteq> [] \<and> length out = length colors \<and> mset out = mset colors
             \<and> (\<forall>i j. i < j \<and> j < length out \<longrightarrow> saturation (out ! j) \<le> saturation (out ! i)))"
proof -
  let ?out = "sort_key (\<lambda>c. - saturation c) colors"
  have loop: "filter_loop max_browns [] 0 colors = Inr []"
    and ok: "\<forall>c \<in> set colors. \<not> isl (hsl_of c)"
  proof -
    from assms(3) show "filter_loop max_browns [] 0 colors = Inr []"
    proof
      assume "\<forall>c \<in> set colors. saturation c < 20"
      with assms(2) have ok': "\<forall>c \<in> set colors. \<not> isl (hsl_of c)"
        and rej: "\<forall>c \<in> set colors. rejected_by_rules c"
        by (simp_all add: hsl_of_valid low_saturation_rejected)
      from filter_loop_survivors[OF ok', of max_browns "[]" 0] survivors_all_rejected[OF rej]
      show ?thesis by simp
    qed
    then show "\<forall>c \<in> set colors. \<not> isl (hsl_of c)" by (rule filter_loop_Inr)
  qed
  have res: "filter_colors colors max_browns = Inr ?out"
    by (simp add: filter_colors_def loop sorted_by_saturation_eq[OF ok])
  have ne: "?out \<noteq> []" using assms(1) by (metis length_sort length_0_conv)
  have desc: "\<forall>i j. i < j \<and> j < length ?out \<longrightarrow> saturation (?out ! j) \<le> saturation (?out ! i)"
    by (simp add: sort_key_descending)
  from res ne desc show ?thesis by simp
qed

theorem filter_colors_fallback_witness:
  "[(195, 183, 183), (42, 35, 35)] \<noteq> ([] :: color list)
   \<and> valid_color (195, 183, 183) \<and> valid_color (42, 35, 35)
   \<and> filter_loop 2 [] 0 [(195, 183, 183), (42, 35, 35)] = Inr []
   \<and> filter_colors [(195, 183, 183), (42, 35, 35)] 2 = Inr [(42, 35, 35), (195, 183, 183)]"
proof -
  have ne: "[(195, 183, 183), (42, 35, 35)] \<noteq> ([] :: color list)" by simp
  have loop: "filter_loop 2 [] 0 [(195, 183, 183), (42, 35, 35)] = Inr []"
    by (simp add: hsl_195_183_183 hsl_42_35_35)
  have srt: "sort_key (\<lambda>c. - saturation c) [(195, 183, 183), (42, 35, 35)]
               = [(42, 35, 35), (195, 183, 183)]"
    by (simp add: saturation_def hsl_195_183_183 hsl_42_35_35)
  have v: "\<forall>c \<in> set [(195, 183, 183), (42, 35, 35)]. valid_color c"
    by (simp add: valid_color_def)
  have v': "valid_color (195, 183, 183)" "valid_color (42, 35, 35)"
    by (simp_all add: valid_color_def)
  from filter_colors_fallback[OF ne v disjI1[OF loop]] srt
  have "filter_colors [(195, 183, 183), (42, 35, 35)] 2 = Inr [(42, 35, 35), (195, 183, 183)]"
    by simp
  with ne v' loop show ?thesis by (intro conjI)
qed

lemma filter_loop_result:
  assumes "filter_loop mb [] 0 colors = Inr filtered"
  shows "filtered = survivors mb 0 colors" "\<forall>c \<in> set filtered. \<not> isl (hsl_of c)"
proof -
  have ok: "\<forall>c \<in> set colors. \<not> isl (hsl_of c)" using assms by (rule filter_loop_Inr)
  from filter_loop_survivors[OF ok, of mb "[]" 0] assms
  show eq: "filtered = survivors mb 0 colors" by simp
  from survivors_subset[of mb 0 colors] ok eq
  show "\<forall>c \<in> set filtered. \<not> isl (hsl_of c)" by blast
qed

lemma filter_colors_total:
  assumes "\<forall>c \<in> set colors. \<not> isl (hsl_of c)"
  shows "filter_colors colors mb =
           Inr (sort_key (\<lambda>c. - saturation c)
                  (if survivors mb 0 colors = [] then colors else survivors mb 0 colors))"
proof -
  have loop: "filter_loop mb [] 0 colors = Inr (survivors mb 0 colors)"
    using filter_loop_survivors[OF assms, of mb "[]" 0] by simp
  have ok: "\<forall>c \<in> set (survivors mb 0 colors). \<not> isl (hsl_of c)"
    using filter_loop_result(2)[OF loop] .
  show ?thesis
    by (simp add: filter_colors_def loop sorted_by_saturation_eq[OF ok]
          sorted_by_saturation_eq[OF assms])
qed

lemma gray_rejected: "rejected_by_rules (v, v, v)"
proof -
  obtain l where "hsl_of (v, v, v) = Inr (0, 0, l)" using hsl_of_pure_gray by blast
  then show ?thesis by (simp add: rejected_by_rules_def)
qed

lemma saturated_kept:
  "hsl_of c = Inr (h, s, l) \<Longrightarrow> 55 \<le> s \<Longrightarrow> 15 \<le> l \<Longrightarrow> l \<le> 85 \<Longrightarrow>
     \<not> rejected_by_rules c \<and> \<not> is_brown c"
  by (simp add: rejected_by_rules_def is_brown_def)

text \<open>
  As stated, claim C6 fails on the fallback: a candidate list holding only the mid-gray
  is returned as it is.
\<close>

theorem filter_colors_gray_counterexample:
  "filter_colors [(128, 128, 128)] 2 = Inr [(128, 128, 128)]"
  by (simp add: filter_colors_def sorted_by_saturation_def hsl_128_128_128)

text \<open>
  Claim C6, amended. For candidates with channels in \<open>[0, 255]\<close>: every pure gray
  \<open>(v, v, v)\<close> has hue 0 and saturation 0; the mid-gray
  \<open>(128,128,128)\<close> has a lightness within \<open>[15, 85]\<close>, so it is the saturation rule that
  rejects it. No pure gray is in the output when the loop keeps at least one candidate;
  when the loop keeps none, the fallback returns every candidate, the grays included.
  Every candidate whose saturation is at least 55 and whose lightness is within
  \<open>[15, 85]\<close> is in the output; the red \<open>(230,20,20)\<close> is one of them.
\<close>

theorem filter_colors_gray_red:
  assumes "\<forall>c \<in> set colors. valid_color c" and "valid_color (v, v, v)"
  shows "(\<exists>l. hsl_of (v, v, v) = Inr (0, 0, l))
       \<and> (\<exists>l. hsl_of (128, 128, 128) = Inr (0, 0, l) \<and> 15 \<le> l \<and> l \<le> 85)
       \<and> (\<exists>s l. hsl_of (230, 20, 20) = Inr (0, s, l) \<and> 55 \<le> s \<and> 15 \<le> l \<and> l \<le> 85)
       \<and> (\<exists>out. filter_colors colors max_browns = Inr out
           \<and> (filter_loop max_browns [] 0 colors \<noteq> Inr [] \<longrightarrow> (v, v, v) \<notin> set out)
           \<and> (filter_loop max_browns [] 0 colors = Inr [] \<longrightarrow> mset out = mset colors)
           \<and> (filter_loop max_browns [] 0 colors = Inr [] \<and> (v, v, v) \<in> set colors
                \<longrightarrow> (v, v, v) \<in> set out)
           \<and> (\<forall>c \<in> set colors. \<forall>h s l.
                 hsl_of c = Inr (h, s, l) \<and> 55 \<le> s \<and> 15 \<le> l \<and> l \<le> 85 \<longrightarrow> c \<in> set out)
           \<and> ((230, 20, 20) \<in> set colors \<longrightarrow> (230, 20, 20) \<in> set out))"
proof -
  have g: "\<exists>l. hsl_of (v, v, v) = Inr (0, 0, l)" by (rule hsl_of_pure_gray)
  have g128: "\<exists>l. hsl_of (128, 128, 128) = Inr (0, 0, l) \<and> 15 \<le> l \<and> l \<le> 85"
    by (rule exI[of _ "7064470003718425 / 140737488355328"]) (simp add: hsl_128_128_128)
  have r: "\<exists>s l. hsl_of (230, 20, 20) = Inr (0, s, l) \<and> 55 \<le> s \<and> 15 \<le> l \<and> l \<le> 85"
    by (rule exI[of _ "5910974510923775 / 70368744177664"], rule exI[of _ "6898896488006275 / 140737488355328"]) (simp add: hsl_230_20_20)
  let ?sv = "survivors max_browns 0 colors"
  let ?out = "sort_key (\<lambda>c. - saturation c) (if ?sv = [] then colors else ?sv)"
  from assms have ok: "\<forall>c \<in> set colors. \<not> isl (hsl_of c)" by (simp add: hsl_of_valid)
  have res: "filter_colors colors max_browns = Inr ?out" by (rule filter_colors_total[OF ok])
  have loop: "filter_loop max_browns [] 0 colors = Inr ?sv"
    using filter_loop_survivors[OF ok, of max_browns "[]" 0] by simp
  have gray: "(v, v, v) \<notin> set ?out" if "filter_loop max_browns [] 0 colors \<noteq> Inr []"
  proof -
    from that loop have "?sv \<noteq> []" by auto
    moreover have "(v, v, v) \<notin> set ?sv"
      using survivors_subset[of max_browns 0 colors] gray_rejected[of v] by blast
    ultimately show ?thesis by simp
  qed
  have fallback: "mset ?out = mset colors" if "filter_loop max_browns [] 0 colors = Inr []"
  proof -
    from that loop have "?sv = []" by simp
    then show ?thesis by simp
  qed
  have sat: "c \<in> set ?out"
    if "c \<in> set colors" "hsl_of c = Inr (h, s, l)" "55 \<le> s" "15 \<le> l" "l \<le> 85" for c h s l
  proof -
    from saturated_kept[OF that(2-5)] that(1) have "c \<in> set ?sv"
      by (simp add: survivors_keeps_other)
    then show ?thesis by auto
  qed
  have red: "(230, 20, 20) \<in> set ?out" if "(230, 20, 20) \<in> set colors"
  proof -
    from r obtain s l where "hsl_of (230, 20, 20) = Inr (0, s, l)" "55 \<le> s" "15 \<le> l" "l \<le> 85"
      by blast
    with that show ?thesis by (rule sat)
  qed
  have "\<exists>out. filter_colors colors max_browns = Inr out
           \<and> (filter_loop max_browns [] 0 colors \<noteq> Inr [] \<longrightarrow> (v, v, v) \<notin> set out)
           \<and> (filter_loop max_browns [] 0 colors = Inr [] \<longrightarrow> mset out = mset colors)
           \<and> (filter_loop max_browns [] 0 colors = Inr [] \<and> (v, v, v) \<in> set colors
                \<longrightarrow> (v, v, v) \<in> set out)
           \<and> (\<forall>c \<in> set colors. \<forall>h s l.
                 hsl_of c = Inr (h, s, l) \<and> 55 \<le> s \<and> 15 \<le> l \<and> l \<le> 85 \<longrightarrow> c \<in> set out)
           \<and> ((230, 20, 20) \<in> set colors \<longrightarrow> (230, 20, 20) \<in> set out)"
  proof (intro exI conjI)
    show "filter_colors colors max_browns = Inr ?out" by (rule res)
    show "filter_loop max_browns [] 0 colors \<noteq> Inr [] \<longrightarrow> (v, v, v) \<notin> set ?out"
      using gray by blast
    show "filter_loop max_browns [] 0 colors = Inr [] \<longrightarrow> mset ?out = mset colors"
      using fallback by blast
    show "filter_loop max_browns [] 0 colors = Inr [] \<and> (v, v, v) \<in> set colors
            \<longrightarrow> (v, v, v) \<in> set ?out"
      using fallback by (metis mset_eq_setD)
    show "\<forall>c \<in> set colors. \<forall>h s l.
            hsl_of c = Inr (h, s, l) \<and> 55 \<le> s \<and> 15 \<le> l \<and> l \<le> 85 \<longrightarrow> c \<in> set ?out"
      using sat by blast
    show "(230, 20, 20) \<in> set colors \<longrightarrow> (230, 20, 20) \<in> set ?out"
      using red by blast
  qed
  with g g128 r show ?thesis by (intro conjI)
qed

theorem filter_colors_gray_red_witness:
  "valid_color (128, 128, 128) \<and> valid_color (230, 20, 20) \<and> valid_color (211, 189, 189)
   \<and> filter_loop 2 [] 0 [(128, 128, 128), (230, 20, 20)] = Inr [(230, 20, 20)]
   \<and> filter_colors [(128, 128, 128), (230, 20, 20)] 2 = Inr [(230, 20, 20)]
   \<and> filter_loop 2 [] 0 [(128, 128, 128), (211, 189, 189)] = Inr []
   \<and> filter_colors [(128, 128, 128), (211, 189, 189)] 2
       = Inr [(211, 189, 189), (128, 128, 128)]"
proof -
  have v1: "\<forall>c \<in> set [(128, 128, 128), (230, 20, 20)]. valid_color c"
    and v2: "\<forall>c \<in> set [(128, 128, 128), (211, 189, 189)]. valid_color c"
    by (simp_all add: valid_color_def)
  have v: "valid_color (128, 128, 128)" "valid_color (230, 20, 20)" "valid_color (211, 189, 189)"
    by (simp_all add: valid_color_def)
  have loop1: "filter_loop 2 [] 0 [(128, 128, 128), (230, 20, 20)] = Inr [(230, 20, 20)]"
    by (simp add: hsl_128_128_128 hsl_230_20_20)
  have loop2: "filter_loop 2 [] 0 [(128, 128, 128), (211, 189, 189)] = Inr []"
    by (simp add: hsl_128_128_128 hsl_211_189_189)
  have res1: "filter_colors [(128, 128, 128), (230, 20, 20)] 2 = Inr [(230, 20, 20)]"
    unfolding filter_colors_def loop1 by (simp add: sorted_by_saturation_def hsl_230_20_20)
  have res2: "filter_colors [(128, 128, 128), (211, 189, 189)] 2
                = Inr [(211, 189, 189), (128, 128, 128)]"
    unfolding filter_colors_def loop2
    by (simp add: sorted_by_saturation_def hsl_128_128_128 hsl_211_189_189)
  from filter_colors_gray_red[OF v1 v(1), of 2] filter_colors_gray_red[OF v2 v(1), of 2]
    v loop1 loop2 res1 res2
  show ?thesis by (intro conjI)
qed

lemma mset_filter_sort_key: "mset (filter P (sort_key f xs)) = mset (filter P xs)"
  by (simp only: mset_filter mset_sort)

text \<open>
  Claim C7. For candidates with channels in \<open>[0, 255]\<close> and a cap that is not negative:
  when the loop keeps at least one candidate, the output of \<open>filter_colors\<close> holds at
  most \<open>max_browns\<close> earth tones: of the candidates that pass the lightness and
  saturation rules, the earth tones kept are the first \<open>max_browns\<close> in input order, the
  later ones are rejected, and every colour that is not an earth tone is kept.
\<close>

theorem filter_colors_earth_tone_cap:
  assumes "\<forall>c \<in> set colors. valid_color c"
    and "filter_loop max_browns [] 0 colors = Inr filtered" and "filtered \<noteq> []"
    and "0 \<le> max_browns"
  shows "\<exists>out. filter_colors colors max_browns = Inr out
           \<and> int (length (filter is_brown out)) \<le> max_browns
           \<and> filter is_brown filtered
               = take (nat max_browns)
                   (filter (\<lambda>c. \<not> rejected_by_rules c \<and> is_brown c) colors)
           \<and> mset (filter is_brown out) = mset (filter is_brown filtered)
           \<and> mset (filter (\<lambda>c. \<not> is_brown c) out)
               = mset (filter (\<lambda>c. \<not> rejected_by_rules c \<and> \<not> is_brown c) colors)"
proof -
  let ?out = "sort_key (\<lambda>c. - saturation c) filtered"
  note fl = filter_loop_result[OF assms(2)]
  have res: "filter_colors colors max_browns = Inr ?out"
    by (simp add: filter_colors_def assms(2,3) sorted_by_saturation_eq[OF fl(2)])
  have browns: "filter is_brown filtered
      = take (nat max_browns) (filter (\<lambda>c. \<not> rejected_by_rules c \<and> is_brown c) colors)"
    using survivors_browns[of max_browns 0 colors] by (simp add: fl(1))
  have mb: "mset (filter is_brown ?out) = mset (filter is_brown filtered)"
    by (rule mset_filter_sort_key)
  have "length (filter is_brown ?out) = length (filter is_brown filtered)"
    using mb by (metis size_mset)
  also have "\<dots> \<le> nat max_browns" by (simp add: browns)
  finally have cap: "int (length (filter is_brown ?out)) \<le> max_browns"
    using assms(4) by linarith
  have others: "mset (filter (\<lambda>c. \<not> is_brown c) ?out)
      = mset (filter (\<lambda>c. \<not> rejected_by_rules c \<and> \<not> is_brown c) colors)"
    using survivors_others[of max_browns 0 colors]
    by (simp only: mset_filter_sort_key fl(1))
  from res cap browns mb others show ?thesis by blast
qed

theorem filter_colors_earth_tone_cap_witness:
  "valid_color (150, 100, 60) \<and> valid_color (160, 110, 70) \<and> valid_color (91, 52, 39)
   \<and> filter_loop 1 [] 0 [(150, 100, 60), (160, 110, 70), (91, 52, 39)]
     = Inr [(150, 100, 60), (91, 52, 39)]
   \<and> is_brown (150, 100, 60) \<and> is_brown (160, 110, 70) \<and> \<not> is_brown (91, 52, 39)
   \<and> filter_colors [(150, 100, 60), (160, 110, 70), (91, 52, 39)] 1
       = Inr [(150, 100, 60), (91, 52, 39)]
   \<and> int (length (filter is_brown [(150, 100, 60), (91, 52, 39)])) \<le> 1"
proof -
  have loop: "filter_loop 1 [] 0 [(150, 100, 60), (160, 110, 70), (91, 52, 39)]
     = Inr [(150, 100, 60), (91, 52, 39)]"
    by (simp add: hsl_150_100_60 hsl_160_110_70 hsl_91_52_39)
  have ne: "[(150, 100, 60), (91, 52, 39)] \<noteq> ([] :: color list)" by simp
  have b: "is_brown (150, 100, 60)" "is_brown (160, 110, 70)" "\<not> is_brown (91, 52, 39)"
    by (simp_all add: is_brown_def hsl_150_100_60 hsl_160_110_70 hsl_91_52_39)
  have res: "filter_colors [(150, 100, 60), (160, 110, 70), (91, 52, 39)] 1
       = Inr [(150, 100, 60), (91, 52, 39)]"
    unfolding filter_colors_def loop
    by (simp add: sorted_by_saturation_def hsl_150_100_60 hsl_91_52_39)
  have v: "\<forall>c \<in> set [(150, 100, 60), (160, 110, 70), (91, 52, 39)]. valid_color c"
    by (simp add: valid_color_def)
  have v': "valid_color (150, 100, 60)" "valid_color (160, 110, 70)" "valid_color (91, 52, 39)"
    by (simp_all add: valid_color_def)
  from filter_colors_earth_tone_cap[OF v loop ne] res
  have "int (length (filter is_brown [(150, 100, 60), (91, 52, 39)])) \<le> 1" by simp
  with v' loop b res show ?thesis by (intro conjI)
qed

text \<open>
  With a cap of two, the same candidates are all kept: the hue of \<open>(91,52,39)\<close> is the
  double just below 15, so the colour is not an earth tone.
\<close>

lemma filter_colors_hue_below_15:
  "filter_colors [(150, 100, 60), (160, 110, 70), (91, 52, 39)] 2
     = Inr [(150, 100, 60), (91, 52, 39), (160, 110, 70)]"
proof -
  have loop: "filter_loop 2 [] 0 [(150, 100, 60), (160, 110, 70), (91, 52, 39)]
     = Inr [(150, 100, 60), (160, 110, 70), (91, 52, 39)]"
    by (simp add: hsl_150_100_60 hsl_160_110_70 hsl_91_52_39)
  show ?thesis
    unfolding filter_colors_def loop
    by (simp add: sorted_by_saturation_def hsl_150_100_60 hsl_160_110_70 hsl_91_52_39)
qed

section \<open>Properties of the quantizer\<close>

lemma min_list_map_mono:
  fixes g :: "'a::linorder \<Rightarrow> 'b::linorder"
  assumes "mono g" "xs \<noteq> []"
  shows "min_list (map g xs) = g (min_list xs)"
  using assms(2)
proof (induction xs)
  case Nil
  then show ?case by simp
next
  case (Cons x xs)
  show ?case
  proof (cases xs)
    case Nil
    then show ?thesis by simp
  next
    case (Cons y ys)
    with Cons.IH have "min_list (map g xs) = g (min_list xs)" by simp
    with Cons show ?thesis by (simp add: min_of_mono[OF assms(1)])
  qed
qed

lemma list_index_map_inj: "inj g \<Longrightarrow> list_index (g a) (map g xs) = list_index a xs"
  by (induction xs) (auto dest: injD)

lemma strict_mono_sqrt_of_int: "strict_mono (\<lambda>n::int. sqrt (of_int n))"
  by (simp add: strict_mono_def)

text \<open>
  The closest centroid is found by comparing distances; comparing their squares, which
  are integers, finds the same one. This is the form used to run the quantizer on
  concrete pixels.
\<close>

lemma find_closest_centroid_sq:
  "find_closest_centroid pixel centroids =
     (if centroids = [] then Inl ValueError
      else Inr (list_index (min_list (map (sq_dist pixel) centroids))
                  (map (sq_dist pixel) centroids)))"
proof (cases "centroids = []")
  case True
  then show ?thesis by (simp add: find_closest_centroid_def)
next
  case False
  let ?g = "\<lambda>n::int. sqrt (of_int n)"
  let ?ds = "map (sq_dist pixel) centroids"
  have ds: "map (color_distance pixel) centroids = map ?g ?ds"
    by (simp add: color_distance_def)
  have g: "mono ?g" "inj ?g"
    using strict_mono_sqrt_of_int by (simp_all add: strict_mono_mono strict_mono_imp_inj_on)
  from False have "?ds \<noteq> []" by simp
  then have "min_list (map ?g ?ds) = ?g (min_list ?ds)"
    by (rule min_list_map_mono[OF g(1)])
  moreover have "list_index (?g (min_list ?ds)) (map ?g ?ds) = list_index (min_list ?ds) ?ds"
    by (rule list_index_map_inj[OF g(2)])
  ultimately have "list_index (min_list (map ?g ?ds)) (map ?g ?ds) = list_index (min_list ?ds) ?ds"
    by (simp only:)
  with False show ?thesis
    unfolding find_closest_centroid_def Let_def ds by (simp del: map_map)
qed

lemma list_index_less: "x \<in> set xs \<Longrightarrow> list_index x xs < length xs"
  by (induction xs) auto

lemma min_list_in_set: "xs \<noteq> [] \<Longrightarrow> min_list xs \<in> set (xs :: 'a::linorder list)"
  by (simp add: min_list_Min)

lemma find_closest_centroid_ok:
  assumes "centroids \<noteq> []"
  shows "\<exists>i. find_closest_centroid pixel centroids = Inr i \<and> i < length centroids"
proof -
  let ?ds = "map (sq_dist pixel) centroids"
  from assms have "?ds \<noteq> []" by simp
  then have "list_index (min_list ?ds) ?ds < length ?ds"
    by (intro list_index_less min_list_in_set)
  with assms show ?thesis by (simp add: find_closest_centroid_sq)
qed

lemma assign_pixels_ok:
  assumes "centroids \<noteq> []" "length centroids \<le> length clusters"
  shows "\<exists>cl. assign_pixels centroids clusters pixels = Inr cl \<and> length cl = length clusters"
  using assms(2)
proof (induction pixels arbitrary: clusters)
  case Nil
  show ?case by simp
next
  case (Cons p ps)
  from find_closest_centroid_ok[OF assms(1), of p] obtain i where
    i: "find_closest_centroid p centroids = Inr i" "i < length centroids" by blast
  with Cons.prems have lt: "i < length clusters" by simp
  have "length centroids \<le> length (clusters[i := clusters ! i @ [p]])"
    using Cons.prems by simp
  from Cons.IH[OF this] i(1) lt show ?case by simp
qed

lemma new_centroids_from_ok:
  "i + length clusters \<le> length centroids \<Longrightarrow>
     \<exists>cs. new_centroids_from centroids i clusters = Inr cs \<and> length cs = length clusters"
proof (induction clusters arbitrary: i)
  case Nil
  show ?case by simp
next
  case (Cons c cl)
  then have "Suc i + length cl \<le> length centroids" by simp
  from Cons.IH[OF this] obtain cs where
    "new_centroids_from centroids (Suc i) cl = Inr cs" "length cs = length cl" by blast
  moreover from Cons.prems have "i < length centroids" by simp
  ultimately show ?case by simp
qed

lemma kmeans_loop_ok:
  assumes "0 < k"
  shows "length centroids = k \<Longrightarrow>
     \<exists>cs clo. kmeans_loop n k pixels centroids clusters = Inr (cs, clo) \<and> length cs = k
        \<and> (if n = 0 then clo = clusters else \<exists>cl. clo = Some cl \<and> length cl = k)"
proof (induction n arbitrary: centroids clusters)
  case 0
  then show ?case by simp
next
  case (Suc n)
  from Suc.prems assms have ne: "centroids \<noteq> []" by auto
  from assign_pixels_ok[OF ne, of "replicate k []" pixels] Suc.prems obtain cl where
    cl: "assign_pixels centroids (replicate k []) pixels = Inr cl" "length cl = k" by auto
  from new_centroids_from_ok[of 0 cl centroids] cl(2) Suc.prems obtain nc where
    nc: "new_centroids_from centroids 0 cl = Inr nc" "length nc = k" by auto
  show ?case
  proof (cases "nc = centroids")
    case True
    with cl nc Suc.prems show ?thesis by simp
  next
    case False
    from Suc.IH[OF nc(2), of "Some cl"] obtain cs clo where
      r: "kmeans_loop n k pixels nc (Some cl) = Inr (cs, clo)" "length cs = k"
         "if n = 0 then clo = Some cl else \<exists>cl. clo = Some cl \<and> length cl = k" by blast
    then have "\<exists>cl'. clo = Some cl' \<and> length cl' = k" using cl(2) by (auto split: if_splits)
    with False cl nc r(1,2) show ?thesis by simp
  qed
qed


lemma mset_sort_reverse: "mset (sort_reverse xs) = mset xs"
  by (simp add: sort_reverse_def)

lemma length_sort_reverse: "length (sort_reverse xs) = length xs"
  by (simp add: sort_reverse_def)

lemma sort_reverse_descending:
  assumes "i < j" "j < length xs"
  shows "sort_reverse xs ! j \<le> sort_reverse xs ! i"
proof -
  let ?s = "sort (rev xs)"
  have len: "length ?s = length xs" by simp
  have "sorted ?s" by simp
  moreover have "length xs - Suc j \<le> length xs - Suc i" "length xs - Suc i < length ?s"
    using assms by simp_all
  ultimately have "?s ! (length xs - Suc j) \<le> ?s ! (length xs - Suc i)"
    by (rule sorted_nth_mono)
  moreover have "rev ?s ! j = ?s ! (length xs - Suc j)" "rev ?s ! i = ?s ! (length xs - Suc i)"
    using assms by (simp_all add: rev_nth)
  ultimately show ?thesis by (simp add: sort_reverse_def)
qed

text \<open>
  With at least \<open>k \<ge> 1\<close> pixels and at least one iteration, every step of the quantizer
  succeeds: there are \<open>k\<close> centroids and \<open>k\<close> clusters throughout.
\<close>

lemma kmeans_colors_succeeds:
  assumes "valid_sample idxs pixels k" "1 \<le> k" "k \<le> int (length pixels)" "1 \<le> max_iterations"
  shows "\<exists>centroids clusters.
           kmeans_loop (nat max_iterations) (nat k) pixels (random_sample idxs pixels) None
             = Inr (centroids, Some clusters)
           \<and> length centroids = nat k \<and> length clusters = nat k
           \<and> kmeans_colors idxs pixels k max_iterations
               = Inr (map snd (sort_reverse
                   (map (\<lambda>i. (length (clusters ! i), centroids ! i)) [0..<nat k])))"
proof -
  from assms(1,3) have "int (length idxs) = k"
    by (simp add: valid_sample_def min_def)
  then have "length idxs = nat k" by linarith
  then have len: "length (random_sample idxs pixels) = nat k"
    by (simp add: random_sample_def)
  from assms(2) have k: "0 < nat k" by simp
  from assms(4) have n: "nat max_iterations \<noteq> 0" by simp
  from kmeans_loop_ok[OF k len, of "nat max_iterations" pixels None] n
  obtain cs cl where
    run: "kmeans_loop (nat max_iterations) (nat k) pixels (random_sample idxs pixels) None
            = Inr (cs, Some cl)"
    and lens: "length cs = nat k" "length cl = nat k"
    by auto
  have sizes: "cluster_sizes (nat k) cs cl
                 = Inr (map (\<lambda>i. (length (cl ! i), cs ! i)) [0..<nat k])"
    by (simp add: cluster_sizes_def lens)
  have "kmeans_colors idxs pixels k max_iterations
          = Inr (map snd (sort_reverse (map (\<lambda>i. (length (cl ! i), cs ! i)) [0..<nat k])))"
    using assms(2,3) by (simp add: kmeans_colors_def run sizes)
  with run lens show ?thesis by blast
qed

text \<open>
  As stated, claim C1 fails: two pixels of one colour and \<open>k = 2\<close> give two centroids,
  whichever positions the random sample picks.
\<close>

theorem kmeans_colors_few_distinct_counterexample:
  "kmeans_colors [0, 1] [(1, 1, 1), (1, 1, 1)] 2 20 = Inr [(1, 1, 1), (1, 1, 1)]
   \<and> kmeans_colors [1, 0] [(1, 1, 1), (1, 1, 1)] 2 20 = Inr [(1, 1, 1), (1, 1, 1)]"
  by (simp add: kmeans_colors_def random_sample_def numeral_eq_Suc find_closest_centroid_sq
        sq_dist_def cluster_sizes_def sort_reverse_def calculate_centroid_def)

text \<open>
  Claim C1, amended. For a population of at least \<open>k\<close> pixels, \<open>k \<ge> 1\<close> and at least one
  iteration, \<open>kmeans_colors\<close> raises no error and returns exactly \<open>k\<close> centroids, however
  few distinct colours the population has.
\<close>

theorem kmeans_colors_returns_k:
  assumes "valid_sample idxs pixels k" "1 \<le> k" "k \<le> int (length pixels)" "1 \<le> max_iterations"
  shows "\<exists>out. kmeans_colors idxs pixels k max_iterations = Inr out \<and> length out = nat k"
proof -
  from kmeans_colors_succeeds[OF assms] obtain cs :: "color list" and cl :: "color list list" where
    "kmeans_colors idxs pixels k max_iterations
       = Inr (map snd (sort_reverse (map (\<lambda>i. (length (cl ! i), cs ! i)) [0..<nat k])))"
    by blast
  then show ?thesis by (simp add: length_sort_reverse)
qed

theorem kmeans_colors_returns_k_witness:
  "valid_sample [0, 1] [(1, 1, 1), (1, 1, 1)] 2
   \<and> (\<exists>out. kmeans_colors [0, 1] [(1, 1, 1), (1, 1, 1)] 2 20 = Inr out \<and> length out = 2)"
proof -
  have v: "valid_sample [0, 1] [(1, 1, 1), (1, 1, 1)] 2" by (simp add: valid_sample_def)
  from kmeans_colors_returns_k[OF v, of 20] v show ?thesis by simp
qed

text \<open>The clamp of the sample size does not save a population smaller than \<open>k\<close>.\<close>

lemma kmeans_colors_small_population:
  "kmeans_colors [] [] 1 20 = Inl IndexError"
  "kmeans_colors [0] [(1, 1, 1)] 2 20 = Inl IndexError"
  "kmeans_colors [] [] 1 0 = Inl NameError"
  "kmeans_colors [] [(1, 1, 1)] 0 20 = Inl ValueError"
  by (simp_all add: kmeans_colors_def random_sample_def numeral_eq_Suc find_closest_centroid_sq
        sq_dist_def calculate_centroid_def)


text \<open>
  As stated, claim C2 fails on the tie-break: two clusters of one pixel each come out with
  centroid 1 before centroid 0.
\<close>

theorem kmeans_colors_tie_counterexample:
  "kmeans_loop 20 2 [(0, 0, 0), (255, 255, 255)]
       (random_sample [0, 1] [(0, 0, 0), (255, 255, 255)]) None
     = Inr ([(0, 0, 0), (255, 255, 255)], Some [[(0, 0, 0)], [(255, 255, 255)]])
   \<and> kmeans_colors [0, 1] [(0, 0, 0), (255, 255, 255)] 2 20
     = Inr [(255, 255, 255), (0, 0, 0)]"
  by (simp add: kmeans_colors_def random_sample_def numeral_eq_Suc find_closest_centroid_sq
        sq_dist_def cluster_sizes_def sort_reverse_def calculate_centroid_def)

text \<open>
  Claim C2, amended. When \<open>kmeans_colors\<close> returns (at least \<open>k \<ge> 1\<close> pixels, at least one
  iteration), its output lists the centroids by descending size of their clusters in the
  last assignment; centroids whose clusters have the same size come in descending order
  of the centroids themselves, compared as tuples \<open>(r, g, b)\<close>, whatever their indices.
\<close>

theorem kmeans_colors_order:
  assumes "valid_sample idxs pixels k" "1 \<le> k" "k \<le> int (length pixels)" "1 \<le> max_iterations"
  shows "\<exists>centroids clusters ps.
           kmeans_loop (nat max_iterations) (nat k) pixels (random_sample idxs pixels) None
             = Inr (centroids, Some clusters)
           \<and> mset ps = mset (map (\<lambda>i. (length (clusters ! i), centroids ! i)) [0..<nat k])
           \<and> kmeans_colors idxs pixels k max_iterations = Inr (map snd ps)
           \<and> (\<forall>i j. i < j \<and> j < length ps \<longrightarrow>
                 fst (ps ! j) < fst (ps ! i)
                 \<or> (fst (ps ! i) = fst (ps ! j) \<and> snd (ps ! j) \<le> snd (ps ! i)))"
proof -
  from kmeans_colors_succeeds[OF assms] obtain cs :: "color list" and cl :: "color list list" where
    run: "kmeans_loop (nat max_iterations) (nat k) pixels (random_sample idxs pixels) None
            = Inr (cs, Some cl)"
    and res: "kmeans_colors idxs pixels k max_iterations
       = Inr (map snd (sort_reverse (map (\<lambda>i. (length (cl ! i), cs ! i)) [0..<nat k])))"
    by blast
  let ?sizes = "map (\<lambda>i. (length (cl ! i), cs ! i)) [0..<nat k]"
  let ?ps = "sort_reverse ?sizes"
  have perm: "mset ?ps = mset ?sizes" by (rule mset_sort_reverse)
  have desc: "fst (?ps ! j) < fst (?ps ! i)
                \<or> (fst (?ps ! i) = fst (?ps ! j) \<and> snd (?ps ! j) \<le> snd (?ps ! i))"
    if "i < j" "j < length ?ps" for i j
  proof -
    from that have "j < length ?sizes" by (simp only: length_sort_reverse)
    with that(1) have "?ps ! j \<le> ?ps ! i" by (rule sort_reverse_descending)
    then show ?thesis by (auto simp: less_eq_prod_def)
  qed
  from run perm res desc show ?thesis by blast
qed

theorem kmeans_colors_order_witness:
  "valid_sample [0, 1] [(0, 0, 0), (255, 255, 255)] 2
   \<and> kmeans_colors [0, 1] [(0, 0, 0), (255, 255, 255)] 2 20 = Inr [(255, 255, 255), (0, 0, 0)]
   \<and> (\<exists>centroids clusters ps.
         kmeans_loop 20 2 [(0, 0, 0), (255, 255, 255)]
             (random_sample [0, 1] [(0, 0, 0), (255, 255, 255)]) None
           = Inr (centroids, Some clusters)
         \<and> mset ps = mset (map (\<lambda>i. (length (clusters ! i), centroids ! i)) [0..<2])
         \<and> [(255, 255, 255), (0, 0, 0)] = map snd ps)"
proof -
  have v: "valid_sample [0, 1] [(0, 0, 0), (255, 255, 255)] 2" by (simp add: valid_sample_def)
  have res: "kmeans_colors [0, 1] [(0, 0, 0), (255, 255, 255)] 2 20
               = Inr [(255, 255, 255), (0, 0, 0)]"
    by (simp add: kmeans_colors_def random_sample_def numeral_eq_Suc find_closest_centroid_sq
          sq_dist_def cluster_sizes_def sort_reverse_def calculate_centroid_def)
  from kmeans_colors_order[OF v, of 20] obtain centroids clusters ps where
    "kmeans_loop (nat 20) (nat 2) [(0, 0, 0), (255, 255, 255)]
        (random_sample [0, 1] [(0, 0, 0), (255, 255, 255)]) None = Inr (centroids, Some clusters)"
    "mset ps = mset (map (\<lambda>i. (length (clusters ! i), centroids ! i)) [0..<nat 2])"
    "kmeans_colors [0, 1] [(0, 0, 0), (255, 255, 255)] 2 20 = Inr (map snd ps)"
    by auto
  with res have "\<exists>centroids clusters ps.
         kmeans_loop 20 2 [(0, 0, 0), (255, 255, 255)]
             (random_sample [0, 1] [(0, 0, 0), (255, 255, 255)]) None
           = Inr (centroids, Some clusters)
         \<and> mset ps = mset (map (\<lambda>i. (length (clusters ! i), centroids ! i)) [0..<2])
         \<and> [(255, 255, 255), (0, 0, 0)] = map snd ps"
    by auto
  with v res show ?thesis by (intro conjI)
qed

text \<open>
  Claim C9. Two runs of \<open>kmeans_colors\<close> on the same pixels, \<open>k\<close> and iteration cap that
  drew the same initial centroids return the same sequence, or raise the same error: the
  sample is the only source of randomness, and the result depends on it only through the
  centroids drawn.
\<close>

theorem kmeans_colors_deterministic:
  assumes "kmeans_colors_run pixels k max_iterations initial result1"
    and "kmeans_colors_run pixels k max_iterations initial result2"
  shows "result1 = result2"
proof -
  have neg: "kmeans_colors idxs pixels k max_iterations = Inl ValueError"
    if "min k (int (length pixels)) < 0" for idxs
    unfolding kmeans_colors_def using that by (simp only: if_True)
  from assms(1) show ?thesis
  proof (cases rule: kmeans_colors_run.cases)
    case (drawn idxs1)
    from assms(2) show ?thesis
    proof (cases rule: kmeans_colors_run.cases)
      case (drawn idxs2)
      with \<open>initial = random_sample idxs1 pixels\<close>
      have "random_sample idxs1 pixels = random_sample idxs2 pixels" by simp
      then have "kmeans_colors idxs1 pixels k max_iterations
                   = kmeans_colors idxs2 pixels k max_iterations"
        unfolding kmeans_colors_def by (simp only:)
      with drawn \<open>result1 = kmeans_colors idxs1 pixels k max_iterations\<close> show ?thesis by simp
    next
      case negative
      with drawn neg[of idxs1] show ?thesis by simp
    qed
  next
    case negative
    from assms(2) show ?thesis
    proof (cases rule: kmeans_colors_run.cases)
      case (drawn idxs2)
      with negative neg[of idxs2] show ?thesis by simp
    next
      case negative
      with \<open>result1 = Inl ValueError\<close> show ?thesis by simp
    qed
  qed
qed

theorem kmeans_colors_deterministic_witness:
  "kmeans_colors_run [(1, 1, 1), (1, 1, 1), (9, 9, 9)] 2 20 [(1, 1, 1), (9, 9, 9)]
      (kmeans_colors [0, 2] [(1, 1, 1), (1, 1, 1), (9, 9, 9)] 2 20)
   \<and> kmeans_colors_run [(1, 1, 1), (1, 1, 1), (9, 9, 9)] 2 20 [(1, 1, 1), (9, 9, 9)]
      (kmeans_colors [1, 2] [(1, 1, 1), (1, 1, 1), (9, 9, 9)] 2 20)
   \<and> kmeans_colors [0, 2] [(1, 1, 1), (1, 1, 1), (9, 9, 9)] 2 20
       = kmeans_colors [1, 2] [(1, 1, 1), (1, 1, 1), (9, 9, 9)] 2 20"
proof -
  have r1: "kmeans_colors_run [(1, 1, 1), (1, 1, 1), (9, 9, 9)] 2 20 [(1, 1, 1), (9, 9, 9)]
      (kmeans_colors [0, 2] [(1, 1, 1), (1, 1, 1), (9, 9, 9)] 2 20)"
    by (rule kmeans_colors_run.drawn[of "[0, 2]"]) (simp_all add: valid_sample_def random_sample_def)
  have r2: "kmeans_colors_run [(1, 1, 1), (1, 1, 1), (9, 9, 9)] 2 20 [(1, 1, 1), (9, 9, 9)]
      (kmeans_colors [1, 2] [(1, 1, 1), (1, 1, 1), (9, 9, 9)] 2 20)"
    by (rule kmeans_colors_run.drawn[of "[1, 2]"]) (simp_all add: valid_sample_def random_sample_def)
  from kmeans_colors_deterministic[OF r1 r2] r1 r2 show ?thesis by (intro conjI)
qed

end
